theory Spec2Isabelle
  imports Main "HOL-Library.Word"
begin

unbundle bit_operations_syntax

section \<open>Intel HEX utilities: data model\<close>

text \<open>
  The C++ source works on \<open>uint8_t\<close>, \<open>uint16_t\<close>, \<open>uint32_t\<close> and \<open>size_t\<close>
  (64 bits on the hosts the SDK tools are built for). A file is the sequence of lines
  that successive \<open>std::getline\<close> calls yield, or \<open>None\<close> when the stream cannot be
  opened. The name of the file, which the source appends to the two messages about a
  file that does not open, is not part of the model.
\<close>

type_synonym u8 = "8 word"
type_synonym u16 = "16 word"
type_synonym u32 = "32 word"
type_synonym size_t = "64 word"

type_synonym hexfile = "string list option"

text \<open>
  The exceptions the code can raise: \<open>std::runtime_error\<close> (thrown by \<open>parseIntelHex\<close>
  when the file does not open), \<open>std::invalid_argument\<close> and \<open>std::out_of_range\<close>
  (thrown by \<open>std::stoi\<close> and \<open>std::string::substr\<close>), and the trap of an integer
  division by zero.
\<close>

datatype error = RuntimeError string | InvalidArgument | OutOfRange | DivisionByZero

subsection \<open>Characters and the standard library calls\<close>

text \<open>\<open>std::isspace\<close> and \<open>std::isxdigit\<close> in the C locale.\<close>

definition isspace_c :: "char \<Rightarrow> bool" where
  "isspace_c c = (let n = (of_char c :: nat) in n = 32 \<or> (9 \<le> n \<and> n \<le> 13))"

definition isHexChar :: "char \<Rightarrow> bool" where
  "isHexChar c =
     (let n = (of_char c :: nat)
      in (48 \<le> n \<and> n \<le> 57) \<or> (65 \<le> n \<and> n \<le> 70) \<or> (97 \<le> n \<and> n \<le> 102))"

definition hexDigitVal :: "char \<Rightarrow> nat" where
  "hexDigitVal c =
     (let n = (of_char c :: nat)
      in if n \<le> 57 then n - 48 else if n \<le> 70 then n - 55 else n - 87)"

text \<open>The value of a run of hexadecimal digits, most significant digit first.\<close>

definition hexval :: "string \<Rightarrow> nat" where
  "hexval ds = foldl (\<lambda>acc c. 16 * acc + hexDigitVal c) 0 ds"

text \<open>
  \<open>s.substr(pos, n)\<close>: throws \<open>std::out_of_range\<close> when \<open>pos > s.size()\<close>, and
  otherwise returns at most \<open>n\<close> characters from \<open>pos\<close> on.
\<close>

definition substr :: "string \<Rightarrow> nat \<Rightarrow> nat \<Rightarrow> error + string" where
  "substr s pos n = (if length s < pos then Inl OutOfRange else Inr (take n (drop pos s)))"

text \<open>
  \<open>std::stoi(s, nullptr, 16)\<close>, that is \<open>strtol\<close> in base 16 followed by the range
  check for \<open>int\<close>: leading white space is skipped, one sign is accepted, a \<open>0x\<close> or
  \<open>0X\<close> prefix is accepted when a hexadecimal digit follows it, and the longest run of
  hexadecimal digits is converted. No digit at all is \<open>std::invalid_argument\<close>; a value
  outside \<open>int\<close> is \<open>std::out_of_range\<close>.
\<close>

definition has_0x_prefix :: "string \<Rightarrow> bool" where
  "has_0x_prefix s =
     (3 \<le> length s \<and> s ! 0 = CHR ''0'' \<and> (s ! 1 = CHR ''x'' \<or> s ! 1 = CHR ''X'')
      \<and> isHexChar (s ! 2))"

definition stoi16 :: "string \<Rightarrow> error + int" where
  "stoi16 s =
     (let s1 = dropWhile isspace_c s;
          neg = (s1 \<noteq> [] \<and> hd s1 = CHR ''-'');
          s2 = (if s1 \<noteq> [] \<and> (hd s1 = CHR ''-'' \<or> hd s1 = CHR ''+'') then tl s1 else s1);
          s3 = (if has_0x_prefix s2 then drop 2 s2 else s2);
          ds = takeWhile isHexChar s3;
          v = int (hexval ds)
      in if ds = [] then Inl InvalidArgument
         else if (if neg then 2 ^ 31 < v else 2 ^ 31 - 1 < v) then Inl OutOfRange
         else Inr (if neg then - v else v))"

text \<open>\<open>std::stoi(s.substr(pos, n), nullptr, 16)\<close>, the only way the code reads a field.\<close>

definition stoi_substr :: "string \<Rightarrow> nat \<Rightarrow> nat \<Rightarrow> error + int" where
  "stoi_substr s pos n = (case substr s pos n of Inl e \<Rightarrow> Inl e | Inr t \<Rightarrow> stoi16 t)"

text \<open>\<open>parseHexByte\<close>: two characters at \<open>pos\<close>, converted and cast to \<open>uint8_t\<close>.\<close>

definition parseHexByte :: "string \<Rightarrow> nat \<Rightarrow> error + u8" where
  "parseHexByte str pos =
     (case stoi_substr str pos 2 of Inl e \<Rightarrow> Inl e | Inr v \<Rightarrow> Inr (word_of_int v))"

text \<open>\<open>hexByte\<close>, the copy of \<open>parseHexByte\<close> used by the bootloader-version code.\<close>

definition hexByte :: "string \<Rightarrow> nat \<Rightarrow> error + u8" where
  "hexByte s pos =
     (case stoi_substr s pos 2 of Inl e \<Rightarrow> Inl e | Inr v \<Rightarrow> Inr (word_of_int v))"

text \<open>
  \<open>static_cast<uint16_t>(std::stoi(line.substr(pos, 4), nullptr, 16))\<close>, used for the
  address field and for the payload of an extended-linear-address record.
\<close>

definition parseHexWord :: "string \<Rightarrow> nat \<Rightarrow> error + u16" where
  "parseHexWord str pos =
     (case stoi_substr str pos 4 of Inl e \<Rightarrow> Inl e | Inr v \<Rightarrow> Inr (word_of_int v))"

text \<open>
  \<open>trimTrailing\<close> erases everything after the last character that is not a blank, a
  carriage return or a line feed; \<open>rtrim\<close> pops such characters, and tabs, from the back.
\<close>

definition trimTrailing :: "string \<Rightarrow> string" where
  "trimTrailing line =
     rev (dropWhile (\<lambda>c. c = CHR '' '' \<or> c = CHR 0x0D \<or> c = CHR 0x0A) (rev line))"

definition rtrim :: "string \<Rightarrow> string" where
  "rtrim s =
     rev (dropWhile (\<lambda>c. c = CHR 0x0D \<or> c = CHR 0x0A \<or> c = CHR '' '' \<or> c = CHR 0x09) (rev s))"

text \<open>
  \<open>std::to_string\<close> of a line number and the \<open>std::hex << std::uppercase\<close> rendering
  of an address: no padding, a single \<open>0\<close> for zero.
\<close>

fun to_string :: "nat \<Rightarrow> string" where
  "to_string n =
     (if n < 10 then [char_of (48 + n)] else to_string (n div 10) @ [char_of (48 + n mod 10)])"

definition hexDigitUpper :: "nat \<Rightarrow> char" where
  "hexDigitUpper d = (if d < 10 then char_of (48 + d) else char_of (55 + d))"

fun hexUpperNat :: "nat \<Rightarrow> string" where
  "hexUpperNat n =
     (if n < 16 then [hexDigitUpper n] else hexUpperNat (n div 16) @ [hexDigitUpper (n mod 16)])"

definition hexUpper :: "u32 \<Rightarrow> string" where
  "hexUpper a = hexUpperNat (unat a)"

subsection \<open>validateLineChecksum\<close>

text \<open>
  The loop \<open>for (i = 1; i < line.length(); i += 2) sum += parseHexByte(line, i)\<close> on a
  \<open>uint8_t\<close> accumulator.
\<close>

function checksum_loop :: "string \<Rightarrow> nat \<Rightarrow> u8 \<Rightarrow> error + u8" where
  "checksum_loop line i acc =
     (if i < length line
      then (case parseHexByte line i of
              Inl e \<Rightarrow> Inl e
            | Inr b \<Rightarrow> checksum_loop line (i + 2) (acc + b))
      else Inr acc)"
  by pat_completeness auto
termination
  by (relation "measure (\<lambda>(line, i, acc). length line - i)") auto

definition validateLineChecksum :: "string \<Rightarrow> error + bool" where
  "validateLineChecksum line =
     (case checksum_loop line 1 0 of Inl e \<Rightarrow> Inl e | Inr acc \<Rightarrow> Inr (acc = 0))"

subsection \<open>The memory image\<close>

text \<open>
  \<open>std::map<uint32_t, uint8_t>\<close> is an ordered container with unique keys. It is
  modelled by its in-order traversal: a list of (address, byte) pairs with strictly
  ascending addresses. \<open>mem[k] = v\<close> is \<open>image_set\<close>, \<open>mem.find(k)\<close> is \<open>map_of\<close>,
  \<open>mem.begin()\<close> is the head, \<open>mem.rbegin()\<close> the last element, \<open>mem.size()\<close> the length.
\<close>

type_synonym MemoryImage = "(u32 \<times> u8) list"

definition image_ok :: "MemoryImage \<Rightarrow> bool" where
  "image_ok mem = sorted_wrt (<) (map fst mem)"

fun image_set :: "u32 \<Rightarrow> u8 \<Rightarrow> MemoryImage \<Rightarrow> MemoryImage" where
  "image_set k v [] = [(k, v)]"
| "image_set k v ((k', v') # mem) =
     (if k < k' then (k, v) # (k', v') # mem
      else if k = k' then (k, v) # mem
      else (k', v') # image_set k v mem)"

text \<open>
  The payload loop shared by both builders:
  \<open>for (uint8_t i = 0; i < byteCount; ++i) mem[base + i] = parseHexByte(line, 9 + i * 2)\<close>.
  The counter never exceeds \<open>byteCount \<le> 255\<close>, so it does not wrap and is a \<open>nat\<close>
  here; \<open>base + i\<close> is an unsigned 32-bit addition.
\<close>

function storePayload :: "string \<Rightarrow> u32 \<Rightarrow> u8 \<Rightarrow> nat \<Rightarrow> MemoryImage \<Rightarrow> error + MemoryImage" where
  "storePayload line base byteCount i mem =
     (if i < unat byteCount
      then (case parseHexByte line (9 + i * 2) of
              Inl e \<Rightarrow> Inl e
            | Inr dataByte \<Rightarrow>
                storePayload line base byteCount (i + 1) (image_set (base + of_nat i) dataByte mem))
      else Inr mem)"
  by pat_completeness auto
termination
  by (relation "measure (\<lambda>(line, base, byteCount, i, mem). unat byteCount - i)") auto

text \<open>\<open>(extendedLinearAddress << 16) | address\<close> on \<open>uint32_t\<close>.\<close>

definition absoluteAddress :: "u32 \<Rightarrow> u16 \<Rightarrow> u32" where
  "absoluteAddress ext address = push_bit 16 ext OR ucast address"

subsection \<open>parseIntelHex, computePagesUsed, calculateFlashPagesUsed\<close>

text \<open>
  What the body of a line loop does with one line: go on to the next line with a new
  extended linear address and image, leave the loop by the \<open>break\<close> of an EOF record, or
  \<open>return false\<close>. A loop is left in one of three ways: the input is exhausted, the
  \<open>break\<close>, or the \<open>return false\<close>.
\<close>

datatype line_step = Next u32 MemoryImage | Break | ReturnFalse

datatype loop_exit = EndOfInput | EofRecord | Rejected

text \<open>The body of the \<open>while (std::getline(file, line))\<close> loop of \<open>parseIntelHex\<close>.\<close>

definition parseIntelHex_line :: "u32 \<Rightarrow> MemoryImage \<Rightarrow> string \<Rightarrow> error + line_step" where
  "parseIntelHex_line ext flashData line =
     (if line = [] \<or> hd line \<noteq> CHR '':'' then Inr (Next ext flashData)
      else case parseHexByte line 1 of Inl e \<Rightarrow> Inl e | Inr byteCount \<Rightarrow>
           case parseHexWord line 3 of Inl e \<Rightarrow> Inl e | Inr address \<Rightarrow>
           case parseHexByte line 7 of Inl e \<Rightarrow> Inl e | Inr recordType \<Rightarrow>
             if recordType = 0x00
             then (case storePayload line (absoluteAddress ext address) byteCount 0 flashData of
                     Inl e \<Rightarrow> Inl e
                   | Inr flashData' \<Rightarrow> Inr (Next ext flashData'))
             else if recordType = 0x04
             then (case parseHexWord line 9 of
                     Inl e \<Rightarrow> Inl e
                   | Inr v \<Rightarrow> Inr (Next (ucast v) flashData))
             else if recordType = 0x01 then Inr Break
             else Inr (Next ext flashData))"

text \<open>
  The loop itself. The result is the state at the exit of the loop: how it was left, the
  extended linear address and the image.
\<close>

fun parseIntelHex_loop ::
  "u32 \<Rightarrow> MemoryImage \<Rightarrow> string list \<Rightarrow> error + (loop_exit \<times> u32 \<times> MemoryImage)" where
  "parseIntelHex_loop ext flashData [] = Inr (EndOfInput, ext, flashData)"
| "parseIntelHex_loop ext flashData (line # rest) =
     (case parseIntelHex_line ext flashData line of
        Inl e \<Rightarrow> Inl e
      | Inr (Next ext' flashData') \<Rightarrow> parseIntelHex_loop ext' flashData' rest
      | Inr Break \<Rightarrow> Inr (EofRecord, ext, flashData)
      | Inr ReturnFalse \<Rightarrow> Inr (Rejected, ext, flashData))"

definition parseIntelHex :: "hexfile \<Rightarrow> error + MemoryImage" where
  "parseIntelHex file =
     (case file of
        None \<Rightarrow> Inl (RuntimeError ''Failed to open file: '')
      | Some lines \<Rightarrow>
          (case parseIntelHex_loop 0 [] lines of
             Inl e \<Rightarrow> Inl e
           | Inr (ex, ext, flashData) \<Rightarrow> Inr flashData))"

text \<open>
  \<open>computePagesUsed\<close>: the two addresses are widened to \<open>size_t\<close> before the division,
  and a zero page size on a non-empty image is a division by zero.
\<close>

definition computePagesUsed :: "MemoryImage \<Rightarrow> size_t \<Rightarrow> error + size_t" where
  "computePagesUsed flashData pageSize =
     (if flashData = [] then Inr 0
      else if pageSize = 0 then Inl DivisionByZero
      else let minAddr = fst (hd flashData);
               maxAddr = fst (last flashData);
               firstPage = (ucast minAddr :: size_t) div pageSize;
               lastPage = (ucast maxAddr :: size_t) div pageSize
           in Inr (lastPage - firstPage + 1))"

definition calculateFlashPagesUsed :: "hexfile \<Rightarrow> size_t \<Rightarrow> error + size_t" where
  "calculateFlashPagesUsed file flashPageSize =
     (case parseIntelHex file of
        Inl e \<Rightarrow> Inl e
      | Inr flashData \<Rightarrow> computePagesUsed flashData flashPageSize)"

subsection \<open>validateHexFile\<close>

text \<open>
  The overlap loop of a data record: each address \<open>absAddr + i\<close> is looked up in
  \<open>writtenAddresses\<close> and inserted; \<open>Inl a\<close> is the first address found there.
\<close>

function overlap_loop :: "u32 \<Rightarrow> u8 \<Rightarrow> nat \<Rightarrow> u32 set \<Rightarrow> u32 + u32 set" where
  "overlap_loop absAddr byteCount i writtenAddresses =
     (if i < unat byteCount
      then (let a = absAddr + of_nat i
            in if a \<in> writtenAddresses then Inl a
               else overlap_loop absAddr byteCount (i + 1) (insert a writtenAddresses))
      else Inr writtenAddresses)"
  by pat_completeness auto
termination
  by (relation "measure (\<lambda>(absAddr, byteCount, i, w). unat byteCount - i)") auto

text \<open>
  The body of the loop of \<open>validateHexFile\<close> on line number \<open>lineNum\<close> (already
  incremented): either \<open>errorOut\<close> is assigned and \<open>false\<close> returned, or the loop goes on
  with new values of \<open>eofSeen\<close>, \<open>extAddr\<close> and \<open>writtenAddresses\<close>.
\<close>

datatype check_step = Fail string | Pass bool u32 "u32 set"

definition validateHexFile_line ::
  "nat \<Rightarrow> bool \<Rightarrow> u32 \<Rightarrow> u32 set \<Rightarrow> string \<Rightarrow> error + check_step" where
  "validateHexFile_line lineNum eofSeen extAddr writtenAddresses raw =
     (let line = trimTrailing raw
      in if line = [] \<or> hd line \<noteq> CHR '':''
         then Inr (Fail (''Line '' @ to_string lineNum @ '' does not start with ''
                          @ [CHR 0x27, CHR '':'', CHR 0x27]))
         else if \<not> list_all isHexChar (tl line)
         then Inr (Fail (''Invalid hex character at line '' @ to_string lineNum))
         else if length line < 11
         then Inr (Fail (''Line '' @ to_string lineNum @ '' too short.''))
         else case parseHexByte line 1 of Inl e \<Rightarrow> Inl e | Inr byteCount \<Rightarrow>
              case parseHexWord line 3 of Inl e \<Rightarrow> Inl e | Inr address \<Rightarrow>
              case parseHexByte line 7 of Inl e \<Rightarrow> Inl e | Inr recordType \<Rightarrow>
                if length line \<noteq> 9 + unat byteCount * 2 + 2
                then Inr (Fail (''Incorrect line length at line '' @ to_string lineNum))
                else case validateLineChecksum line of Inl e \<Rightarrow> Inl e | Inr ok \<Rightarrow>
                  if \<not> ok then Inr (Fail (''Checksum mismatch at line '' @ to_string lineNum))
                  else if 0x05 < recordType
                  then Inr (Fail (''Unknown record type at line '' @ to_string lineNum))
                  else if recordType = 0x01 \<and> eofSeen
                  then Inr (Fail ''Multiple EOF records detected.'')
                  else if recordType = 0x00
                  then (case overlap_loop (absoluteAddress extAddr address) byteCount 0
                               writtenAddresses of
                          Inl a \<Rightarrow> Inr (Fail (''Overlapping data at address 0x'' @ hexUpper a))
                        | Inr w \<Rightarrow> Inr (Pass (eofSeen \<or> recordType = 0x01) extAddr w))
                  else if recordType = 0x04
                  then (case parseHexWord line 9 of
                          Inl e \<Rightarrow> Inl e
                        | Inr v \<Rightarrow>
                            Inr (Pass (eofSeen \<or> recordType = 0x01) (ucast v) writtenAddresses))
                  else Inr (Pass (eofSeen \<or> recordType = 0x01) extAddr writtenAddresses))"

text \<open>
  The loop and the check after it. \<open>errorOut\<close> is the caller's string: the result pairs
  the returned flag with the value of \<open>errorOut\<close> at the return. The file name, which the
  source appends to the message of a file that does not open, is not part of the model.
\<close>

fun validateHexFile_loop ::
  "nat \<Rightarrow> bool \<Rightarrow> u32 \<Rightarrow> u32 set \<Rightarrow> string \<Rightarrow> string list \<Rightarrow> error + (bool \<times> string)" where
  "validateHexFile_loop lineNum eofSeen extAddr writtenAddresses errorOut [] =
     (if \<not> eofSeen then Inr (False, ''Missing EOF record.'') else Inr (True, errorOut))"
| "validateHexFile_loop lineNum eofSeen extAddr writtenAddresses errorOut (raw # rest) =
     (case validateHexFile_line (lineNum + 1) eofSeen extAddr writtenAddresses raw of
        Inl e \<Rightarrow> Inl e
      | Inr (Fail msg) \<Rightarrow> Inr (False, msg)
      | Inr (Pass eofSeen' extAddr' w) \<Rightarrow>
          validateHexFile_loop (lineNum + 1) eofSeen' extAddr' w errorOut rest)"

definition validateHexFile :: "hexfile \<Rightarrow> string \<Rightarrow> error + (bool \<times> string)" where
  "validateHexFile file errorOut =
     (case file of
        None \<Rightarrow> Inr (False, ''Failed to open file: '')
      | Some lines \<Rightarrow> validateHexFile_loop 0 False 0 {} errorOut lines)"

subsection \<open>extractBootloaderVersionFromHex\<close>

definition kBootSig :: "u8 list" where
  "kBootSig = [0x20, 0x0F, 0xF9, 0xA7, 0x17, 0x7D, 0x4E, 0x99,
               0xDB, 0x53, 0xA2, 0x72, 0xE7, 0xC3, 0xE1, 0xFA]"

definition kBootSigLen :: nat where
  "kBootSigLen = length kBootSig"

text \<open>
  The body of the loop of \<open>parseIntelHexToMap\<close>. The line counter of the source is never
  read and is left out.
\<close>

definition parseIntelHexToMap_line :: "u32 \<Rightarrow> MemoryImage \<Rightarrow> string \<Rightarrow> error + line_step" where
  "parseIntelHexToMap_line extLinear mem raw =
     (let line = rtrim raw
      in if line = [] then Inr (Next extLinear mem)
         else if hd line \<noteq> CHR '':'' then Inr ReturnFalse
         else if \<not> list_all isHexChar (tl line) then Inr ReturnFalse
         else if length line < 11 then Inr ReturnFalse
         else case hexByte line 1 of Inl e \<Rightarrow> Inl e | Inr byteCount \<Rightarrow>
              case parseHexWord line 3 of Inl e \<Rightarrow> Inl e | Inr addr16 \<Rightarrow>
              case hexByte line 7 of Inl e \<Rightarrow> Inl e | Inr recType \<Rightarrow>
                if length line \<noteq> 1 + 2 * (unat byteCount + 5) then Inr ReturnFalse
                else case validateLineChecksum line of Inl e \<Rightarrow> Inl e | Inr ok \<Rightarrow>
                  if \<not> ok then Inr ReturnFalse
                  else if recType = 0x00
                  then (case storePayload line (absoluteAddress extLinear addr16) byteCount 0 mem of
                          Inl e \<Rightarrow> Inl e
                        | Inr mem' \<Rightarrow> Inr (Next extLinear mem'))
                  else if recType = 0x04
                  then (if byteCount \<noteq> 2 then Inr ReturnFalse
                        else case parseHexWord line 9 of
                               Inl e \<Rightarrow> Inl e
                             | Inr v \<Rightarrow> Inr (Next (ucast v) mem))
                  else if recType = 0x01 then Inr Break
                  else Inr (Next extLinear mem))"

fun parseIntelHexToMap_loop ::
  "u32 \<Rightarrow> MemoryImage \<Rightarrow> string list \<Rightarrow> error + (loop_exit \<times> u32 \<times> MemoryImage)" where
  "parseIntelHexToMap_loop extLinear mem [] = Inr (EndOfInput, extLinear, mem)"
| "parseIntelHexToMap_loop extLinear mem (raw # rest) =
     (case parseIntelHexToMap_line extLinear mem raw of
        Inl e \<Rightarrow> Inl e
      | Inr (Next extLinear' mem') \<Rightarrow> parseIntelHexToMap_loop extLinear' mem' rest
      | Inr Break \<Rightarrow> Inr (EofRecord, extLinear, mem)
      | Inr ReturnFalse \<Rightarrow> Inr (Rejected, extLinear, mem))"

text \<open>
  \<open>parseIntelHexToMap\<close> returns \<open>sawEOF\<close>, which is set only by the \<open>break\<close>, and leaves in
  \<open>mem\<close> what it has written.
\<close>

definition parseIntelHexToMap :: "hexfile \<Rightarrow> error + (bool \<times> MemoryImage)" where
  "parseIntelHexToMap file =
     (case file of
        None \<Rightarrow> Inr (False, [])
      | Some lines \<Rightarrow>
          (case parseIntelHexToMap_loop 0 [] lines of
             Inl e \<Rightarrow> Inl e
           | Inr (ex, extLinear, mem) \<Rightarrow> Inr (ex = EofRecord, mem)))"

text \<open>
  \<open>findPatternAddress\<close>: the inner loop compares \<open>pat[i]\<close> with the byte found at
  \<open>addr + i\<close> for \<open>i = 1 .. patLen - 1\<close>; the outer loop visits the entries in ascending
  order of address. \<open>Some addr\<close> is the return of \<open>true\<close> with \<open>foundAddr = addr\<close>.
\<close>

function pattern_rest_ok :: "MemoryImage \<Rightarrow> u8 list \<Rightarrow> u32 \<Rightarrow> nat \<Rightarrow> bool" where
  "pattern_rest_ok mem pat addr i =
     (if i < length pat
      then (case map_of mem (addr + of_nat i) of
              None \<Rightarrow> False
            | Some b \<Rightarrow> if b \<noteq> pat ! i then False else pattern_rest_ok mem pat addr (i + 1))
      else True)"
  by pat_completeness auto
termination
  by (relation "measure (\<lambda>(mem, pat, addr, i). length pat - i)") auto

fun findPattern_loop :: "MemoryImage \<Rightarrow> u8 list \<Rightarrow> (u32 \<times> u8) list \<Rightarrow> u32 option" where
  "findPattern_loop mem pat [] = None"
| "findPattern_loop mem pat ((addr, b) # its) =
     (if b \<noteq> pat ! 0 then findPattern_loop mem pat its
      else if pattern_rest_ok mem pat addr 1 then Some addr
      else findPattern_loop mem pat its)"

definition findPatternAddress :: "MemoryImage \<Rightarrow> u8 list \<Rightarrow> u32 option" where
  "findPatternAddress mem pat =
     (if length mem < length pat then None else findPattern_loop mem pat mem)"

text \<open>
  \<open>major\<close> and \<open>minor\<close> are the caller's variables: the result gives the returned flag
  and their values at the return.
\<close>

definition extractBootloaderVersionFromHex ::
  "hexfile \<Rightarrow> u8 \<Rightarrow> u8 \<Rightarrow> error + (bool \<times> u8 \<times> u8)" where
  "extractBootloaderVersionFromHex file major minor =
     (case parseIntelHexToMap file of
        Inl e \<Rightarrow> Inl e
      | Inr (parsed, mem) \<Rightarrow>
          if \<not> parsed then Inr (False, major, minor)
          else case findPatternAddress mem kBootSig of
                 None \<Rightarrow> Inr (False, major, minor)
               | Some sigAddr \<Rightarrow>
                   (let versionAddr = sigAddr + of_nat kBootSigLen
                    in case map_of mem versionAddr of
                         None \<Rightarrow> Inr (False, major, minor)
                       | Some mj \<Rightarrow>
                           (case map_of mem (versionAddr + 1) of
                              None \<Rightarrow> Inr (False, major, minor)
                            | Some mn \<Rightarrow> Inr (True, mj, mn))))"

declare checksum_loop.simps [simp del]
declare storePayload.simps [simp del]
declare overlap_loop.simps [simp del]
declare pattern_rest_ok.simps [simp del]
declare to_string.simps [simp del]
declare hexUpperNat.simps [simp del]

section \<open>Notions used to state the properties\<close>

text \<open>
  The value of the two, respectively four, hexadecimal digits at a position of a line:
  the fields of a record are \<open>hexByteAt line 1\<close> (byte count), \<open>hexWordAt line 3\<close>
  (address), \<open>hexByteAt line 7\<close> (record type), \<open>hexByteAt line (9 + 2 * i)\<close> (payload
  byte \<open>i\<close>) and \<open>hexByteAt line (length line - 2)\<close> (checksum).
\<close>

definition hexByteAt :: "string \<Rightarrow> nat \<Rightarrow> u8" where
  "hexByteAt line pos = of_nat (hexval (take 2 (drop pos line)))"

definition hexWordAt :: "string \<Rightarrow> nat \<Rightarrow> u16" where
  "hexWordAt line pos = of_nat (hexval (take 4 (drop pos line)))"

text \<open>
  A line has the shape of a record when it is a colon followed by hexadecimal digits only,
  at least 11 characters long, and as long as its byte count announces.
\<close>

definition record_shape :: "string \<Rightarrow> bool" where
  "record_shape line =
     (line \<noteq> [] \<and> hd line = CHR '':'' \<and> list_all isHexChar (tl line) \<and> 11 \<le> length line
      \<and> length line = 9 + unat (hexByteAt line 1) * 2 + 2)"

text \<open>
  A colon line decodes when every conversion that \<open>parseIntelHex\<close> performs on it
  succeeds: the byte count, the address, the record type, and then the payload bytes of a
  data record or the two bytes of an extended-linear-address record. A file has an
  undecodable line before its EOF record when, reading only the lines that start with a
  colon, a line that does not decode comes before any record of type 1.
\<close>

definition line_decodes :: "string \<Rightarrow> bool" where
  "line_decodes line =
     (case parseHexByte line 1 of Inl e \<Rightarrow> False | Inr byteCount \<Rightarrow>
      case parseHexWord line 3 of Inl e \<Rightarrow> False | Inr address \<Rightarrow>
      case parseHexByte line 7 of Inl e \<Rightarrow> False | Inr recordType \<Rightarrow>
        (recordType = 0x00 \<longrightarrow>
           (\<forall>i<unat byteCount. \<not> isl (parseHexByte line (9 + i * 2))))
        \<and> (recordType = 0x04 \<longrightarrow> \<not> isl (parseHexWord line 9)))"

fun undecodable_before_eof :: "string list \<Rightarrow> bool" where
  "undecodable_before_eof [] = False"
| "undecodable_before_eof (line # rest) =
     (if line = [] \<or> hd line \<noteq> CHR '':'' then undecodable_before_eof rest
      else if \<not> line_decodes line then True
      else if parseHexByte line 7 = Inr 0x01 then False
      else undecodable_before_eof rest)"

text \<open>
  The extended linear address in force after a run of lines: the 16-bit value of the most
  recently seen record of type 4, and 0 when there is none.
\<close>

definition is_ext_record :: "string \<Rightarrow> bool" where
  "is_ext_record line = (line \<noteq> [] \<and> hd line = CHR '':'' \<and> parseHexByte line 7 = Inr 0x04)"

definition ext_value :: "string \<Rightarrow> u32" where
  "ext_value line = (case parseHexWord line 9 of Inl e \<Rightarrow> 0 | Inr v \<Rightarrow> ucast v)"

definition mostRecentExt :: "string list \<Rightarrow> u32" where
  "mostRecentExt lines =
     (case filter is_ext_record (rev lines) of [] \<Rightarrow> 0 | line # earlier \<Rightarrow> ext_value line)"

text \<open>
  A pattern occurs at an address when each of its bytes is present in the image at the
  address plus its index, in 32-bit arithmetic; the boot signature is the pattern of the
  16 bytes of \<open>kBootSig\<close>.
\<close>

definition pattern_at :: "MemoryImage \<Rightarrow> u8 list \<Rightarrow> u32 \<Rightarrow> bool" where
  "pattern_at mem pat addr = (\<forall>i<length pat. map_of mem (addr + of_nat i) = Some (pat ! i))"

definition signature_at :: "MemoryImage \<Rightarrow> u32 \<Rightarrow> bool" where
  "signature_at mem addr = (\<forall>i<16. map_of mem (addr + of_nat i) = Some (kBootSig ! i))"

text \<open>
  The line-level checks of the validator: the shape of a record, a valid checksum and a
  record type of at most 5.
\<close>

definition line_checks_pass :: "string \<Rightarrow> bool" where
  "line_checks_pass line =
     (record_shape line \<and> validateLineChecksum line = Inr True \<and> hexByteAt line 7 \<le> 0x05)"

text \<open>
  The absolute addresses that the data records of a file write, in file order, each under
  the extended linear address set by the most recent record of type 4 (as the validator
  reads it: the four digits after the record type); and the number of EOF records.
\<close>

fun data_writes :: "u32 \<Rightarrow> string list \<Rightarrow> u32 list" where
  "data_writes ext [] = []"
| "data_writes ext (line # rest) =
     (if hexByteAt line 7 = 0x00
      then map (\<lambda>i. absoluteAddress ext (hexWordAt line 3) + of_nat i)
             [0..<unat (hexByteAt line 1)]
           @ data_writes ext rest
      else if hexByteAt line 7 = 0x04 then data_writes (ucast (hexWordAt line 9)) rest
      else data_writes ext rest)"

definition eof_count :: "string list \<Rightarrow> nat" where
  "eof_count lines = length (filter (\<lambda>line. hexByteAt line 7 = 0x01) lines)"

text \<open>
  The extended linear address in force after a run of lines, as the validator updates it
  at each record of type 4.
\<close>

fun ext_after :: "u32 \<Rightarrow> string list \<Rightarrow> u32" where
  "ext_after ext [] = ext"
| "ext_after ext (line # rest) =
     ext_after (if hexByteAt line 7 = 0x04 then ucast (hexWordAt line 9) else ext) rest"

text \<open>A digit \<open>0\<close> to \<open>9\<close> or a capital letter \<open>A\<close> to \<open>F\<close>.\<close>

definition isUpperHexChar :: "char \<Rightarrow> bool" where
  "isUpperHexChar c =
     (let n = (of_char c :: nat) in (48 \<le> n \<and> n \<le> 57) \<or> (65 \<le> n \<and> n \<le> 70))"

section \<open>Reading hexadecimal fields\<close>

lemma of_char_lt_256: "(of_char c :: nat) < 256"
  by (cases c) (simp add: of_char_def)  

lemma isHexChar_not_space: "isHexChar c \<Longrightarrow> \<not> isspace_c c"
  by (auto simp: isHexChar_def isspace_c_def Let_def)

lemma isHexChar_not_special:
  "isHexChar c \<Longrightarrow> c \<noteq> CHR ''-'' \<and> c \<noteq> CHR ''+'' \<and> c \<noteq> CHR ''x'' \<and> c \<noteq> CHR ''X''"
  by (auto simp: isHexChar_def Let_def)

lemma hexDigitVal_lt: "isHexChar c \<Longrightarrow> hexDigitVal c < 16"
  by (auto simp: isHexChar_def hexDigitVal_def Let_def)

lemma hexval_Nil [simp]: "hexval [] = 0"
  by (simp add: hexval_def)

lemma hexval_snoc: "hexval (s @ [c]) = 16 * hexval s + hexDigitVal c"
  by (simp add: hexval_def)

lemma hexval_append: "hexval (s @ t) = hexval s * 16 ^ length t + hexval t"
proof (induction t rule: rev_induct)
  case Nil
  show ?case by simp
next
  case (snoc c t)
  have "hexval (s @ t @ [c]) = 16 * hexval (s @ t) + hexDigitVal c"
    using hexval_snoc [of "s @ t" c] by simp
  then show ?case
    by (simp add: snoc.IH hexval_snoc algebra_simps)
qed

lemma hexval_lt: "list_all isHexChar s \<Longrightarrow> hexval s < 16 ^ length s"
proof (induction s rule: rev_induct)
  case Nil
  show ?case by simp
next
  case (snoc c s)
  then have "hexval s < 16 ^ length s" and "hexDigitVal c < 16"
    by (simp_all add: hexDigitVal_lt)
  then have "16 * hexval s + hexDigitVal c < 16 * 16 ^ length s"
    by linarith
  then show ?case by (simp add: hexval_snoc)
qed

lemma stoi16_hex:
  assumes "list_all isHexChar s" "s \<noteq> []" "length s \<le> 7"
  shows "stoi16 s = Inr (int (hexval s))"
proof -
  obtain c t where s: "s = c # t" using assms(2) by (cases s) auto
  have c: "isHexChar c" using assms(1) s by simp
  have d: "dropWhile isspace_c s = s"
    using c s by (simp add: isHexChar_not_space)
  have p: "\<not> has_0x_prefix s"
  proof
    assume h: "has_0x_prefix s"
    then have "isHexChar (s ! 1)" using assms(1) by (simp add: has_0x_prefix_def list_all_length)
    with h show False using isHexChar_not_special [of "s ! 1"] by (auto simp: has_0x_prefix_def)
  qed
  have t: "takeWhile isHexChar s = s"
    using assms(1) by (simp add: list_all_iff)
  have "hexval s < 16 ^ length s" using assms(1) by (rule hexval_lt)
  also have "\<dots> \<le> (16::nat) ^ 7" using assms(3) by (intro power_increasing) auto
  finally have b: "int (hexval s) \<le> 2 ^ 31 - 1" by simp
  have n: "hd s \<noteq> CHR ''-''" "hd s \<noteq> CHR ''+''"
    using c s isHexChar_not_special [of c] by auto
  show ?thesis
    unfolding stoi16_def Let_def d using n p b assms(2) by (simp add: t)
qed

lemma hex_take_drop:
  "list_all isHexChar (tl line) \<Longrightarrow> 1 \<le> pos \<Longrightarrow> list_all isHexChar (take n (drop pos line))"
  by (cases line) (auto simp: list_all_iff drop_Cons' dest: in_set_takeD in_set_dropD)

lemma stoi_substr_hex:
  assumes "list_all isHexChar (tl line)" "1 \<le> pos" "pos < length line" "0 < n" "n \<le> 7"
  shows "stoi_substr line pos n = Inr (int (hexval (take n (drop pos line))))"
proof -
  have "take n (drop pos line) \<noteq> []" using assms(3,4) by simp
  moreover have "length (take n (drop pos line)) \<le> 7" using assms(5) by simp
  ultimately show ?thesis
    using assms(3) hex_take_drop [OF assms(1,2)]
    by (simp add: stoi_substr_def substr_def stoi16_hex)
qed

lemma parseHexByte_hex:
  "list_all isHexChar (tl line) \<Longrightarrow> 1 \<le> pos \<Longrightarrow> pos < length line \<Longrightarrow>
   parseHexByte line pos = Inr (hexByteAt line pos)"
  by (simp add: parseHexByte_def stoi_substr_hex hexByteAt_def)

lemma hexByte_eq: "hexByte = parseHexByte"
  by (intro ext) (simp add: hexByte_def parseHexByte_def)

lemma parseHexWord_hex:
  "list_all isHexChar (tl line) \<Longrightarrow> 1 \<le> pos \<Longrightarrow> pos < length line \<Longrightarrow>
   parseHexWord line pos = Inr (hexWordAt line pos)"
  by (simp add: parseHexWord_def stoi_substr_hex hexWordAt_def)

lemma checksum_loop_hex:
  assumes "list_all isHexChar (tl line)" "1 \<le> i" "length line = i + 2 * m"
  shows "checksum_loop line i acc = Inr (acc + (\<Sum>k<m. hexByteAt line (i + 2 * k)))"
  using assms(2,3)
proof (induction m arbitrary: i acc)
  case 0
  then show ?case by (simp add: checksum_loop.simps)
next
  case (Suc m)
  have lt: "i < length line" using Suc.prems by simp
  have p: "parseHexByte line i = Inr (hexByteAt line i)"
    using assms(1) Suc.prems(1) lt by (rule parseHexByte_hex)
  have "checksum_loop line i acc = checksum_loop line (i + 2) (acc + hexByteAt line i)"
    using lt p by (subst checksum_loop.simps) simp
  also have "\<dots> = Inr (acc + hexByteAt line i + (\<Sum>k<m. hexByteAt line (i + 2 + 2 * k)))"
    using Suc.prems by (intro Suc.IH) auto
  finally have r: "checksum_loop line i acc =
      Inr (acc + hexByteAt line i + (\<Sum>k<m. hexByteAt line (i + 2 + 2 * k)))" .
  have s: "(\<Sum>k<Suc m. hexByteAt line (i + 2 * k)) =
      hexByteAt line i + (\<Sum>k<m. hexByteAt line (i + 2 + 2 * k))"
    by (simp add: sum.lessThan_Suc_shift add.assoc del: sum.lessThan_Suc)
  show ?case unfolding r s by (simp add: add.assoc)
qed

lemma unat_sum_u8:
  fixes f :: "nat \<Rightarrow> u8"
  shows "unat (\<Sum>k<m. f k) = (\<Sum>k<m. unat (f k)) mod 256"
proof (induction m)
  case 0
  show ?case by simp
next
  case (Suc m)
  have "unat ((\<Sum>k<m. f k) + f m) = (unat (\<Sum>k<m. f k) + unat (f m)) mod 256"
    by (simp add: unat_word_ariths)
  also have "\<dots> = ((\<Sum>k<m. unat (f k)) mod 256 + unat (f m)) mod 256"
    by (simp add: Suc.IH)
  also have "\<dots> = ((\<Sum>k<m. unat (f k)) + unat (f m)) mod 256"
    by (simp add: mod_add_left_eq)
  finally show ?case by simp
qed

lemma unat_hexByteAt:
  assumes "list_all isHexChar (tl line)" "1 \<le> pos"
  shows "unat (hexByteAt line pos) = hexval (take 2 (drop pos line))"
proof -
  have "hexval (take 2 (drop pos line)) < 16 ^ length (take 2 (drop pos line))"
    using hex_take_drop [OF assms] by (rule hexval_lt)
  also have "\<dots> \<le> (16::nat) ^ 2" by (intro power_increasing) auto
  finally have "hexval (take 2 (drop pos line)) < 256" by simp
  then show ?thesis by (simp add: hexByteAt_def unat_of_nat)
qed

lemma unat_hexWordAt:
  assumes "list_all isHexChar (tl line)" "1 \<le> pos"
  shows "unat (hexWordAt line pos) = hexval (take 4 (drop pos line))"
proof -
  have "hexval (take 4 (drop pos line)) < 16 ^ length (take 4 (drop pos line))"
    using hex_take_drop [OF assms] by (rule hexval_lt)
  also have "\<dots> \<le> (16::nat) ^ 4" by (intro power_increasing) auto
  finally have "hexval (take 4 (drop pos line)) < 65536" by simp
  then show ?thesis by (simp add: hexWordAt_def unat_of_nat)
qed

lemma hexWordAt_split:
  assumes "list_all isHexChar (tl line)" "1 \<le> pos" "pos + 4 \<le> length line"
  shows "unat (hexWordAt line pos) =
         unat (hexByteAt line pos) * 256 + unat (hexByteAt line (pos + 2))"
proof -
  have "take 4 (drop pos line) = take 2 (drop pos line) @ take 2 (drop (pos + 2) line)"
    using take_add [of 2 2 "drop pos line"] by (simp add: add.commute)
  moreover have "length (take 2 (drop (pos + 2) line)) = 2" using assms(3) by simp
  ultimately have "hexval (take 4 (drop pos line)) =
      hexval (take 2 (drop pos line)) * 256 + hexval (take 2 (drop (pos + 2) line))"
    by (simp add: hexval_append)
  then show ?thesis
    using assms(1,2) by (simp add: unat_hexWordAt unat_hexByteAt)
qed

lemma hexWordAt_div_mod:
  assumes "list_all isHexChar (tl line)" "1 \<le> pos" "pos + 4 \<le> length line"
  shows "unat (hexWordAt line pos) div 256 = unat (hexByteAt line pos)"
    and "unat (hexWordAt line pos) mod 256 = unat (hexByteAt line (pos + 2))"
proof -
  have "unat (hexByteAt line (pos + 2)) < 256"
    using unsigned_less [of "hexByteAt line (pos + 2)", where ?'a = nat] by simp
  then show "unat (hexWordAt line pos) div 256 = unat (hexByteAt line pos)"
    and "unat (hexWordAt line pos) mod 256 = unat (hexByteAt line (pos + 2))"
    by (simp_all add: hexWordAt_split [OF assms])
qed

lemma record_sum_split:
  fixes B :: "nat \<Rightarrow> nat"
  shows "(\<Sum>k<n + 5. B k) = B 0 + B 1 + B 2 + B 3 + (\<Sum>i<n. B (4 + i)) + B (n + 4)"
proof -
  have "(\<Sum>k<n + 5. B k) = (\<Sum>k<Suc (Suc (Suc (Suc n))). B k) + B (n + 4)"
    by (simp add: eval_nat_numeral)
  also have "(\<Sum>k<Suc (Suc (Suc (Suc n))). B k) = B 0 + B 1 + B 2 + B 3 + (\<Sum>i<n. B (4 + i))"
    by (simp add: sum.lessThan_Suc_shift eval_nat_numeral del: sum.lessThan_Suc)
  finally show ?thesis .
qed

lemma validateLineChecksum_record:
  assumes "record_shape line"
  shows "validateLineChecksum line =
     Inr ((unat (hexByteAt line 1)
           + unat (hexWordAt line 3) div 256 + unat (hexWordAt line 3) mod 256
           + unat (hexByteAt line 7)
           + (\<Sum>i<unat (hexByteAt line 1). unat (hexByteAt line (9 + 2 * i)))
           + unat (hexByteAt line (length line - 2))) mod 256 = 0)"
proof -
  define n where "n = unat (hexByteAt line 1)"
  have hex: "list_all isHexChar (tl line)" and len: "length line = 1 + 2 * (n + 5)"
    using assms by (simp_all add: record_shape_def n_def)
  have "checksum_loop line 1 0 = Inr (0 + (\<Sum>k<n + 5. hexByteAt line (1 + 2 * k)))"
    using hex _ len by (rule checksum_loop_hex) simp
  then have "validateLineChecksum line = Inr ((\<Sum>k<n + 5. hexByteAt line (1 + 2 * k)) = 0)"
    by (simp add: validateLineChecksum_def)
  also have "((\<Sum>k<n + 5. hexByteAt line (1 + 2 * k)) = 0) =
             ((\<Sum>k<n + 5. unat (hexByteAt line (1 + 2 * k))) mod 256 = 0)"
    using unat_sum_u8 [of "\<lambda>k. hexByteAt line (1 + 2 * k)" "n + 5"]
    by (metis unat_eq_0)
  also have "(\<Sum>k<n + 5. unat (hexByteAt line (1 + 2 * k))) =
      unat (hexByteAt line 1) + unat (hexByteAt line 3) + unat (hexByteAt line 5)
      + unat (hexByteAt line 7) + (\<Sum>i<n. unat (hexByteAt line (9 + 2 * i)))
      + unat (hexByteAt line (length line - 2))"
    using record_sum_split [of "\<lambda>k. unat (hexByteAt line (1 + 2 * k))" n]
    by (simp add: len algebra_simps eval_nat_numeral)
  also have "unat (hexByteAt line 3) = unat (hexWordAt line 3) div 256"
    using hexWordAt_div_mod(1) [OF hex, of 3] len by simp
  also have "unat (hexByteAt line 5) = unat (hexWordAt line 3) mod 256"
    using hexWordAt_div_mod(2) [OF hex, of 3] len by simp
  finally show ?thesis by (simp add: n_def)
qed

section \<open>The line checksum\<close>

text \<open>
  Claim C4. For a line that has the shape of a record, \<open>validateLineChecksum\<close> accepts
  exactly when the byte count, the high and the low byte of the address, the record type,
  every payload byte and the checksum byte add up to 0 modulo 256; the summands are the
  values that \<open>parseHexByte\<close> and the address conversion read from the line.
\<close>

theorem validateLineChecksum_iff_sum_zero:
  assumes "record_shape line"
  shows "validateLineChecksum line =
           Inr ((unat (hexByteAt line 1)
                 + unat (hexWordAt line 3) div 256 + unat (hexWordAt line 3) mod 256
                 + unat (hexByteAt line 7)
                 + (\<Sum>i<unat (hexByteAt line 1). unat (hexByteAt line (9 + 2 * i)))
                 + unat (hexByteAt line (length line - 2))) mod 256 = 0)
         \<and> parseHexByte line 1 = Inr (hexByteAt line 1)
         \<and> parseHexWord line 3 = Inr (hexWordAt line 3)
         \<and> parseHexByte line 7 = Inr (hexByteAt line 7)
         \<and> (\<forall>i<unat (hexByteAt line 1).
               parseHexByte line (9 + 2 * i) = Inr (hexByteAt line (9 + 2 * i)))
         \<and> parseHexByte line (length line - 2) = Inr (hexByteAt line (length line - 2))"
proof -
  have hex: "list_all isHexChar (tl line)"
    and len: "length line = 9 + unat (hexByteAt line 1) * 2 + 2"
    using assms by (simp_all add: record_shape_def)
  have "parseHexByte line pos = Inr (hexByteAt line pos)" if "1 \<le> pos" "pos < length line" for pos
    using hex that by (rule parseHexByte_hex)
  moreover have "parseHexWord line 3 = Inr (hexWordAt line 3)"
    using hex len by (intro parseHexWord_hex) simp_all
  ultimately show ?thesis
    using validateLineChecksum_record [OF assms] len by simp
qed

theorem validateLineChecksum_iff_sum_zero_witness:
  "record_shape '':0100000000FF'' \<and> validateLineChecksum '':0100000000FF'' = Inr True"
proof -
  have shape: "record_shape '':0100000000FF''"
    by code_simp
  have total: "((unat (hexByteAt '':0100000000FF'' 1)
                 + unat (hexWordAt '':0100000000FF'' 3) div 256
                 + unat (hexWordAt '':0100000000FF'' 3) mod 256
                 + unat (hexByteAt '':0100000000FF'' 7)
                 + (\<Sum>i<unat (hexByteAt '':0100000000FF'' 1).
                      unat (hexByteAt '':0100000000FF'' (9 + 2 * i)))
                 + unat (hexByteAt '':0100000000FF'' (length '':0100000000FF'' - 2)))
               mod 256 = 0) = True"
    by code_simp
  from validateLineChecksum_iff_sum_zero [OF shape]
  have "validateLineChecksum '':0100000000FF'' =
           Inr ((unat (hexByteAt '':0100000000FF'' 1)
                 + unat (hexWordAt '':0100000000FF'' 3) div 256
                 + unat (hexWordAt '':0100000000FF'' 3) mod 256
                 + unat (hexByteAt '':0100000000FF'' 7)
                 + (\<Sum>i<unat (hexByteAt '':0100000000FF'' 1).
                      unat (hexByteAt '':0100000000FF'' (9 + 2 * i)))
                 + unat (hexByteAt '':0100000000FF'' (length '':0100000000FF'' - 2)))
               mod 256 = 0)"
    by (rule conjunct1)
  with shape show ?thesis
    unfolding total by (rule conjI)
qed

section \<open>Output parameters\<close>

lemma validateHexFile_loop_true:
  "validateHexFile_loop n eofSeen extAddr w errorOut lines = Inr (True, e) \<Longrightarrow> e = errorOut"
proof (induction lines arbitrary: n eofSeen extAddr w)
  case Nil
  then show ?case by (simp split: if_splits)
next
  case (Cons raw rest)
  from Cons.prems show ?case
    by (auto split: sum.splits check_step.splits dest: Cons.IH)
qed

text \<open>
  Claim C10. When \<open>validateHexFile\<close> returns \<open>true\<close>, \<open>errorOut\<close> holds the value it had
  at entry.
\<close>

theorem validateHexFile_true_keeps_errorOut:
  assumes "validateHexFile file errorOut = Inr (True, e)"
  shows "e = errorOut"
proof (cases "file")
  case None
  with assms show ?thesis by (simp add: validateHexFile_def)
next
  case (Some lines)
  with assms show ?thesis
    by (auto simp: validateHexFile_def dest: validateHexFile_loop_true)
qed

theorem validateHexFile_true_keeps_errorOut_witness:
  "validateHexFile (Some ['':0100000055AA'', '':00000001FF'']) ''earlier message''
     = Inr (True, ''earlier message'')
   \<and> ''earlier message'' = ''earlier message''"
proof -
  have r: "validateHexFile (Some ['':0100000055AA'', '':00000001FF'']) ''earlier message''
     = Inr (True, ''earlier message'')"
    by code_simp
  from r validateHexFile_true_keeps_errorOut [OF r] show ?thesis ..
qed

text \<open>
  Claim C9. When \<open>extractBootloaderVersionFromHex\<close> returns \<open>false\<close>, \<open>major\<close> and
  \<open>minor\<close> hold the values they had at entry.
\<close>

theorem extract_false_keeps_version:
  assumes "extractBootloaderVersionFromHex file major minor = Inr (False, mj, mn)"
  shows "mj = major \<and> mn = minor"
  using assms
  by (auto simp: extractBootloaderVersionFromHex_def Let_def
           split: sum.splits prod.splits option.splits if_splits)

theorem extract_false_keeps_version_witness:
  "extractBootloaderVersionFromHex (Some ['':0100000020DF'', '':00000001FF'']) 7 9
     = Inr (False, 7, 9)
   \<and> (7 :: u8) = 7 \<and> (9 :: u8) = 9"
proof -
  have r: "extractBootloaderVersionFromHex (Some ['':0100000020DF'', '':00000001FF'']) 7 9
     = Inr (False, 7, 9)"
    by code_simp
  from r extract_false_keeps_version [OF r] show ?thesis ..
qed

section \<open>Flash pages\<close>

lemma image_ok_Cons: "image_ok ((k, v) # mem) = ((\<forall>k' \<in> fst ` set mem. k < k') \<and> image_ok mem)"
  by (auto simp: image_ok_def)

lemma image_ok_hd:
  assumes "image_ok mem" "mem \<noteq> []"
  shows "fst (hd mem) = Min (fst ` set mem)"
proof -
  obtain k v rest where m: "mem = (k, v) # rest" using assms(2) by (cases mem) auto
  have "\<forall>k' \<in> fst ` set rest. k < k'" using assms(1) m by (simp add: image_ok_Cons)
  then have "Min (insert k (fst ` set rest)) = k"
    by (intro Min_eqI) auto
  then show ?thesis by (simp add: m)
qed

lemma image_ok_last:
  assumes "image_ok mem" "mem \<noteq> []"
  shows "fst (last mem) = Max (fst ` set mem)"
proof -
  have s: "sorted_wrt (<) (map fst mem)" using assms(1) by (simp add: image_ok_def)
  have "fst (last mem) = last (map fst mem)" using assms(2) by (simp add: last_map)
  moreover have "last (map fst mem) = Max (set (map fst mem))"
  proof (rule Max_eqI [symmetric])
    show "finite (set (map fst mem))" by simp
    show "last (map fst mem) \<in> set (map fst mem)"
      using assms(2) by (intro last_in_set) simp
    fix y assume y: "y \<in> set (map fst mem)"
    then obtain i where i: "i < length (map fst mem)" "map fst mem ! i = y"
      by (auto simp: in_set_conv_nth)
    show "y \<le> last (map fst mem)"
    proof (cases "i = length (map fst mem) - 1")
      case True
      then show ?thesis using i assms(2) by (simp add: last_conv_nth)
    next
      case False
      then have "i < length (map fst mem) - 1" using i by simp
      then have "map fst mem ! i < map fst mem ! (length (map fst mem) - 1)"
        using sorted_wrt_nth_less [OF s, of i "length (map fst mem) - 1"] i by simp
      then show ?thesis using i assms(2) by (simp add: last_conv_nth)
    qed
  qed
  ultimately show ?thesis by simp
qed

lemma pages_arith:
  fixes lo hi :: u32 and ps :: size_t
  assumes "lo \<le> hi" "ps \<noteq> 0"
  shows "unat ((ucast hi :: size_t) div ps - (ucast lo :: size_t) div ps + 1) =
         unat hi div unat ps - unat lo div unat ps + 1"
proof -
  let ?H = "(ucast hi :: size_t) div ps" and ?L = "(ucast lo :: size_t) div ps"
  have b: "unat w < 2 ^ 64" for w :: u32
  proof -
    have "unat w < 2 ^ 32" using unsigned_less [of w, where ?'a = nat] by simp
    then show ?thesis by simp
  qed
  have uh: "unat (ucast hi :: size_t) = unat hi" and ul: "unat (ucast lo :: size_t) = unat lo"
    using b [of hi] b [of lo] by (simp_all add: unsigned_ucast_eq take_bit_nat_eq_self)
  have H: "unat ?H = unat hi div unat ps" and L: "unat ?L = unat lo div unat ps"
    by (simp_all add: unat_div uh ul)
  have le: "unat lo div unat ps \<le> unat hi div unat ps"
    using assms(1) by (simp add: word_le_nat_alt div_le_mono)
  then have "?L \<le> ?H" by (simp add: word_le_nat_alt H L)
  then have d: "unat (?H - ?L) = unat hi div unat ps - unat lo div unat ps"
    by (simp add: unat_sub H L)
  have "unat hi < 2 ^ 32" using unsigned_less [of hi, where ?'a = nat] by simp
  then have "unat hi div unat ps < 2 ^ 32"
    by (meson div_le_dividend le_less_trans)
  then have "unat (?H - ?L) + 1 < 2 ^ 64" using d by simp
  then have "unat (?H - ?L + 1) = unat (?H - ?L) + 1"
    by (simp add: unat_word_ariths)
  then show ?thesis by (simp add: d)
qed

text \<open>
  Claim C3. \<open>computePagesUsed\<close> returns 0 on the empty image; on a non-empty image and
  a page size other than 0 it returns the page of the largest address minus the page of the
  smallest address plus one, by integer division. Bytes at \<open>0x0000\<close> and \<open>0x07FF\<close>
  only give 1 page of 2048 bytes, bytes at \<open>0x0000\<close> and \<open>0x0800\<close> give 2.
\<close>

theorem computePagesUsed_page_span:
  "computePagesUsed [] pageSize = Inr 0
   \<and> (mem \<noteq> [] \<and> image_ok mem \<and> pageSize \<noteq> 0 \<longrightarrow>
        (\<exists>n. computePagesUsed mem pageSize = Inr n
           \<and> unat n = unat (Max (fst ` set mem)) div unat pageSize
                      - unat (Min (fst ` set mem)) div unat pageSize + 1))
   \<and> computePagesUsed [(0x0000, b0), (0x07FF, b1)] 2048 = Inr 1
   \<and> computePagesUsed [(0x0000, b0), (0x0800, b1)] 2048 = Inr 2"
proof (intro conjI impI)
  show "computePagesUsed [] pageSize = Inr 0" by (simp add: computePagesUsed_def)
  show "computePagesUsed [(0x0000, b0), (0x07FF, b1)] 2048 = Inr 1"
    by (simp add: computePagesUsed_def)
  show "computePagesUsed [(0x0000, b0), (0x0800, b1)] 2048 = Inr 2"
    by (simp add: computePagesUsed_def)
next
  assume a: "mem \<noteq> [] \<and> image_ok mem \<and> pageSize \<noteq> 0"
  then have lo: "fst (hd mem) = Min (fst ` set mem)" and hi: "fst (last mem) = Max (fst ` set mem)"
    by (simp_all add: image_ok_hd image_ok_last)
  have "Min (fst ` set mem) \<le> Max (fst ` set mem)"
  proof -
    have "fst (hd mem) \<in> fst ` set mem" using a by simp
    then have "Min (fst ` set mem) \<le> fst (hd mem)" "fst (hd mem) \<le> Max (fst ` set mem)"
      by (simp_all add: Min_le)
    then show ?thesis by (rule order_trans)
  qed
  then show "\<exists>n. computePagesUsed mem pageSize = Inr n
           \<and> unat n = unat (Max (fst ` set mem)) div unat pageSize
                      - unat (Min (fst ` set mem)) div unat pageSize + 1"
    using a pages_arith [of "Min (fst ` set mem)" "Max (fst ` set mem)" pageSize]
    by (simp add: computePagesUsed_def Let_def lo hi)
qed

theorem computePagesUsed_page_span_witness:
  "[(0x1000, 0xAA), (0x2FFF, 0xBB)] \<noteq> ([] :: MemoryImage)
   \<and> image_ok [(0x1000, 0xAA), (0x2FFF, 0xBB)] \<and> (2048 :: size_t) \<noteq> 0
   \<and> computePagesUsed [(0x1000, 0xAA), (0x2FFF, 0xBB)] 2048 = Inr 4"
proof -
  have ok: "image_ok [(0x1000, 0xAA), (0x2FFF, 0xBB)]"
    by (simp add: image_ok_def)
  have mm: "Min (fst ` set [(0x1000 :: u32, 0xAA :: u8), (0x2FFF, 0xBB)]) = 0x1000"
    "Max (fst ` set [(0x1000 :: u32, 0xAA :: u8), (0x2FFF, 0xBB)]) = 0x2FFF"
    by simp_all
  from computePagesUsed_page_span
         [where mem = "[(0x1000, 0xAA), (0x2FFF, 0xBB)]" and pageSize = 2048] ok
  obtain n where n: "computePagesUsed [(0x1000, 0xAA), (0x2FFF, 0xBB)] 2048 = Inr n"
    and u: "unat n = unat (Max (fst ` set [(0x1000 :: u32, 0xAA :: u8), (0x2FFF, 0xBB)])) div unat (2048 :: size_t)
              - unat (Min (fst ` set [(0x1000 :: u32, 0xAA :: u8), (0x2FFF, 0xBB)])) div unat (2048 :: size_t) + 1"
    by auto
  have "unat n = 4" unfolding u mm by simp
  then have "unat n = unat (4 :: size_t)" by simp
  then have "n = 4" by (simp only: word_unat_eq_iff)
  with n ok show ?thesis by simp
qed

section \<open>Writing into the memory image\<close>


lemma keys_image_set: "fst ` set (image_set k v mem) = insert k (fst ` set mem)"
  by (induction k v mem rule: image_set.induct) (simp_all add: insert_commute)

lemma image_ok_image_set: "image_ok mem \<Longrightarrow> image_ok (image_set k v mem)"
proof (induction mem)
  case Nil
  show ?case by (simp add: image_ok_def)
next
  case (Cons p mem)
  obtain k' v' where p: "p = (k', v')" by (cases p)
  from Cons.prems have lt: "\<forall>x \<in> fst ` set mem. k' < x" and ok: "image_ok mem"
    by (simp_all add: p image_ok_Cons)
  show ?case
  proof (cases "k < k'")
    case True
    with lt ok show ?thesis by (auto simp: p image_ok_Cons)
  next
    case False
    show ?thesis
    proof (cases "k = k'")
      case True
      with lt ok show ?thesis by (simp add: p image_ok_Cons)
    next
      case ne: False
      with False have "k' < k" by simp
      with lt ok Cons.IH ne False show ?thesis
        by (simp add: p image_ok_Cons keys_image_set)
    qed
  qed
qed

lemma of_nat_u32_inj:
  assumes "i < 256" "j < 256" "(of_nat i :: u32) = of_nat j"
  shows "i = j"
proof -
  have "i < 4294967296" "j < 4294967296"
    using assms(1,2) by linarith+
  then have u: "unat (of_nat i :: u32) = i" "unat (of_nat j :: u32) = j"
    by (simp_all add: unat_of_nat)
  from assms(3) have "unat (of_nat i :: u32) = unat (of_nat j :: u32)"
    by (rule arg_cong)
  then show ?thesis by (simp only: u)
qed

lemma unat_u8_lt: "unat (b :: u8) < 256"
  using unsigned_less [of b, where ?'a = nat] by simp


lemma storePayload_image_ok:
  "storePayload line base bc i mem = Inr mem' \<Longrightarrow> image_ok mem \<Longrightarrow> image_ok mem'"
proof (induction "unat bc - i" arbitrary: i mem)
  case 0
  then have "\<not> i < unat bc" by simp
  with 0 show ?case by (subst (asm) storePayload.simps) simp
next
  case (Suc d)
  then have lt: "i < unat bc" by simp
  from Suc.prems(1) lt obtain b where b: "parseHexByte line (9 + i * 2) = Inr b"
    and r: "storePayload line base bc (i + 1) (image_set (base + of_nat i) b mem) = Inr mem'"
    by (subst (asm) storePayload.simps) (auto split: sum.splits)
  have "d = unat bc - (i + 1)" using Suc.hyps(2) by simp
  from Suc.hyps(1) [OF this r] Suc.prems(2) show ?case
    by (simp add: image_ok_image_set)
qed

lemma storePayload_isl:
  "isl (storePayload line base bc i mem) =
     (\<exists>j. i \<le> j \<and> j < unat bc \<and> isl (parseHexByte line (9 + j * 2)))"
proof (induction "unat bc - i" arbitrary: i mem)
  case 0
  then have "\<not> i < unat bc" by simp
  then show ?case by (subst storePayload.simps) auto
next
  case (Suc d)
  then have lt: "i < unat bc" by simp
  have d: "d = unat bc - (i + 1)" using Suc.hyps(2) by simp
  show ?case
  proof (cases "parseHexByte line (9 + i * 2)")
    case (Inl e)
    then have "isl (storePayload line base bc i mem)"
      using lt by (subst storePayload.simps) simp
    moreover have "\<exists>j. i \<le> j \<and> j < unat bc \<and> isl (parseHexByte line (9 + j * 2))"
      using lt Inl by (intro exI [of _ i]) simp
    ultimately show ?thesis by simp
  next
    case (Inr b)
    have "isl (storePayload line base bc i mem) =
          isl (storePayload line base bc (i + 1) (image_set (base + of_nat i) b mem))"
      using lt Inr by (subst storePayload.simps) simp
    also have "\<dots> = (\<exists>j. i + 1 \<le> j \<and> j < unat bc \<and> isl (parseHexByte line (9 + j * 2)))"
      using d by (rule Suc.hyps(1))
    also have "\<dots> = (\<exists>j. i \<le> j \<and> j < unat bc \<and> isl (parseHexByte line (9 + j * 2)))"
    proof -
      have "(i \<le> j \<and> j < unat bc \<and> isl (parseHexByte line (9 + j * 2))) =
            (i + 1 \<le> j \<and> j < unat bc \<and> isl (parseHexByte line (9 + j * 2)))" for j
        using Inr by (cases "j = i") auto
      then show ?thesis by simp
    qed
    finally show ?thesis .
  qed
qed

section \<open>The lenient parser and the flash-page count\<close>

lemma storePayload_Inl:
  "storePayload line base bc 0 mem = Inl e \<Longrightarrow> \<exists>i<unat bc. isl (parseHexByte line (9 + i * 2))"
  using storePayload_isl [of line base bc 0 mem] by simp

lemma storePayload_Inr:
  "storePayload line base bc 0 mem = Inr mem' \<Longrightarrow> i < unat bc \<Longrightarrow>
   \<not> isl (parseHexByte line (9 + i * 2))"
  using storePayload_isl [of line base bc 0 mem] by auto

lemma parseIntelHex_line_isl:
  "isl (parseIntelHex_line ext mem line) =
     (line \<noteq> [] \<and> hd line = CHR '':'' \<and> \<not> line_decodes line)"
  by (auto simp: parseIntelHex_line_def line_decodes_def
           split: sum.splits dest: storePayload_Inl storePayload_Inr)

lemma parseIntelHex_line_Break:
  "(parseIntelHex_line ext mem line = Inr Break) =
     (line \<noteq> [] \<and> hd line = CHR '':'' \<and> line_decodes line \<and> parseHexByte line 7 = Inr 0x01)"
  by (auto simp: parseIntelHex_line_def line_decodes_def split: sum.splits)

lemma parseIntelHex_line_not_ReturnFalse:
  "parseIntelHex_line ext mem line \<noteq> Inr ReturnFalse"
  by (auto simp: parseIntelHex_line_def split: sum.splits)

lemma parseIntelHex_loop_isl:
  "isl (parseIntelHex_loop ext mem lines) = undecodable_before_eof lines"
proof (induction lines arbitrary: ext mem)
  case Nil
  show ?case by simp
next
  case (Cons line rest)
  show ?case
  proof (cases "parseIntelHex_line ext mem line")
    case (Inl e)
    then have "isl (parseIntelHex_line ext mem line)" by simp
    then have "line \<noteq> [] \<and> hd line = CHR '':'' \<and> \<not> line_decodes line"
      unfolding parseIntelHex_line_isl .
    then have "undecodable_before_eof (line # rest)" by auto
    moreover have "isl (parseIntelHex_loop ext mem (line # rest))" using Inl by simp
    ultimately show ?thesis by simp
  next
    case (Inr st)
    then have "\<not> isl (parseIntelHex_line ext mem line)" by simp
    then have d: "line = [] \<or> hd line \<noteq> CHR '':'' \<or> line_decodes line"
      unfolding parseIntelHex_line_isl by blast
    show ?thesis
    proof (cases st)
      case (Next ext' mem')
      then have "parseIntelHex_line ext mem line \<noteq> Inr Break" using Inr by simp
      then have "\<not> (line \<noteq> [] \<and> hd line = CHR '':'' \<and> line_decodes line
                     \<and> parseHexByte line 7 = Inr 0x01)"
        unfolding parseIntelHex_line_Break .
      with d have "undecodable_before_eof (line # rest) = undecodable_before_eof rest"
        by auto
      moreover have "parseIntelHex_loop ext mem (line # rest) = parseIntelHex_loop ext' mem' rest"
        using Inr Next by simp
      ultimately show ?thesis using Cons.IH [of ext' mem'] by simp
    next
      case Break
      with Inr have "parseIntelHex_line ext mem line = Inr Break" by simp
      then have "line \<noteq> [] \<and> hd line = CHR '':'' \<and> line_decodes line
                     \<and> parseHexByte line 7 = Inr 0x01"
        unfolding parseIntelHex_line_Break .
      then have "\<not> undecodable_before_eof (line # rest)" by auto
      moreover have "\<not> isl (parseIntelHex_loop ext mem (line # rest))"
        using Inr Break by simp
      ultimately show ?thesis by simp
    next
      case ReturnFalse
      with Inr show ?thesis using parseIntelHex_line_not_ReturnFalse by simp
    qed
  qed
qed

lemma computePagesUsed_not_isl: "pageSize \<noteq> 0 \<Longrightarrow> \<not> isl (computePagesUsed mem pageSize)"
  by (simp add: computePagesUsed_def Let_def)

lemma record_shape_decodes:
  assumes "record_shape line"
  shows "line_decodes line"
proof -
  have hex: "list_all isHexChar (tl line)" and ge: "11 \<le> length line"
    and len: "length line = 9 + unat (hexByteAt line 1) * 2 + 2"
    using assms by (simp_all add: record_shape_def)
  have f1: "parseHexByte line 1 = Inr (hexByteAt line 1)"
    and f7: "parseHexByte line 7 = Inr (hexByteAt line 7)"
    using hex ge by (simp_all add: parseHexByte_hex)
  have f3: "parseHexWord line 3 = Inr (hexWordAt line 3)"
    and f9: "parseHexWord line 9 = Inr (hexWordAt line 9)"
    using hex ge by (simp_all add: parseHexWord_hex)
  have "\<not> isl (parseHexByte line (9 + i * 2))" if "i < unat (hexByteAt line 1)" for i
    using that hex len by (simp add: parseHexByte_hex)
  then show ?thesis
    unfolding line_decodes_def by (simp only: f1 f3 f7 f9 sum.case) simp
qed

lemma decodable_lines:
  assumes "\<forall>line \<in> set lines. line = [] \<or> hd line \<noteq> CHR '':'' \<or> line_decodes line"
  shows "\<not> undecodable_before_eof lines"
  using assms by (induction lines) auto

text \<open>
  Claim C1, as the code has it. With a page size other than 0, \<open>calculateFlashPagesUsed\<close>
  raises exactly when the file does not open or a colon line that does not decode is met
  before an EOF record. Whether the file holds an EOF record plays no part: a file all of
  whose colon lines decode, in particular one all of whose colon lines have the shape of a
  record, yields a page count.
\<close>

theorem calculateFlashPagesUsed_raises_iff:
  assumes "pageSize \<noteq> 0"
  shows "isl (calculateFlashPagesUsed file pageSize) =
           (case file of None \<Rightarrow> True | Some lines \<Rightarrow> undecodable_before_eof lines)
       \<and> ((\<forall>line \<in> set lines. line = [] \<or> hd line \<noteq> CHR '':'' \<or> line_decodes line) \<longrightarrow>
            (\<exists>pages. calculateFlashPagesUsed (Some lines) pageSize = Inr pages))
       \<and> ((\<forall>line \<in> set lines. line = [] \<or> hd line \<noteq> CHR '':'' \<or> record_shape line) \<longrightarrow>
            (\<exists>pages. calculateFlashPagesUsed (Some lines) pageSize = Inr pages))"
proof -
  have iff: "isl (calculateFlashPagesUsed f pageSize) =
           (case f of None \<Rightarrow> True | Some lines \<Rightarrow> undecodable_before_eof lines)" for f
  proof (cases f)
    case None
    then show ?thesis by (simp add: calculateFlashPagesUsed_def parseIntelHex_def)
  next
    case (Some ls)
    show ?thesis
    proof (cases "parseIntelHex_loop 0 [] ls")
      case (Inl e)
      then have "isl (parseIntelHex_loop 0 [] ls)" by simp
      then have "undecodable_before_eof ls" unfolding parseIntelHex_loop_isl .
      with Inl Some show ?thesis by (simp add: calculateFlashPagesUsed_def parseIntelHex_def)
    next
      case (Inr r)
      then have "\<not> isl (parseIntelHex_loop 0 [] ls)" by simp
      then have "\<not> undecodable_before_eof ls" unfolding parseIntelHex_loop_isl .
      with Inr Some assms show ?thesis
        by (simp add: calculateFlashPagesUsed_def parseIntelHex_def computePagesUsed_not_isl
                 split: prod.splits)
    qed
  qed
  have count: "\<exists>pages. calculateFlashPagesUsed (Some lines) pageSize = Inr pages"
    if d: "\<forall>line \<in> set lines. line = [] \<or> hd line \<noteq> CHR '':'' \<or> line_decodes line"
  proof -
    have "\<not> isl (calculateFlashPagesUsed (Some lines) pageSize)"
      using iff [of "Some lines"] decodable_lines [OF d] by simp
    then show ?thesis by (cases "calculateFlashPagesUsed (Some lines) pageSize") simp_all
  qed
  have "\<exists>pages. calculateFlashPagesUsed (Some lines) pageSize = Inr pages"
    if "\<forall>line \<in> set lines. line = [] \<or> hd line \<noteq> CHR '':'' \<or> record_shape line"
    using that by (intro count) (auto dest: record_shape_decodes)
  with iff [of "file"] count show ?thesis by blast
qed

theorem calculateFlashPagesUsed_raises_iff_witness:
  "(2048 :: size_t) \<noteq> 0
   \<and> record_shape '':0100000000FF''
   \<and> hd ''no record'' \<noteq> CHR '':''
   \<and> \<not> isl (calculateFlashPagesUsed (Some ['':0100000000FF'', ''no record'']) 2048)
   \<and> undecodable_before_eof ['':01'']
   \<and> isl (calculateFlashPagesUsed (Some ['':01'']) 2048)"
proof -
  have b: "undecodable_before_eof ['':01'']"
    and c: "record_shape '':0100000000FF''"
    and n: "hd ''no record'' \<noteq> CHR '':''"
    by code_simp+
  have p: "(2048 :: size_t) \<noteq> 0" by simp
  have h: "\<forall>line \<in> set ['':0100000000FF'', ''no record''].
             line = [] \<or> hd line \<noteq> CHR '':'' \<or> record_shape line"
    using c n by simp
  from calculateFlashPagesUsed_raises_iff
         [OF p, of "Some ['':0100000000FF'', ''no record'']" "['':0100000000FF'', ''no record'']"] h
  obtain pages where
    "calculateFlashPagesUsed (Some ['':0100000000FF'', ''no record'']) 2048 = Inr pages"
    by blast
  then have r: "\<not> isl (calculateFlashPagesUsed (Some ['':0100000000FF'', ''no record'']) 2048)"
    by simp
  from calculateFlashPagesUsed_raises_iff [OF p, of "Some ['':01'']" "[]"] b
  have "isl (calculateFlashPagesUsed (Some ['':01'']) 2048)" by simp
  with p c n r b show ?thesis by simp
qed

text \<open>
  The claim as stated fails: a file whose only line is a data record has no EOF record,
  and the call returns the page count 1.
\<close>

theorem calculateFlashPagesUsed_without_eof_counterexample:
  "calculateFlashPagesUsed (Some ['':0100000000FF'']) 2048 = Inr 1"
  by code_simp

lemma rtrim_prefix:
  "rtrim s @ rev (takeWhile (\<lambda>c. c = CHR 0x0D \<or> c = CHR 0x0A \<or> c = CHR '' '' \<or> c = CHR 0x09) (rev s)) = s"
  unfolding rtrim_def rev_append [symmetric] takeWhile_dropWhile_id by simp

lemma rtrim_nonempty_hd:
  assumes "rtrim s \<noteq> []"
  shows "s \<noteq> [] \<and> hd (rtrim s) = hd s"
proof -
  obtain t where t: "rtrim s @ t = s" using rtrim_prefix by blast
  have "hd (rtrim s @ t) = hd (rtrim s)" using assms by (rule hd_append2)
  moreover have "rtrim s @ t \<noteq> []" using assms by simp
  ultimately show ?thesis unfolding t by simp
qed

text \<open>
  Claim C8, as the code has it. \<open>parseIntelHex\<close> skips a line that is empty or does not
  start with a colon. \<open>parseIntelHexToMap\<close> skips a line that is empty after trimming,
  and returns \<open>false\<close> on a line that is not empty after trimming and does not start
  with a colon.
\<close>

theorem lenient_paths_on_non_colon_line:
  "(line = [] \<or> hd line \<noteq> CHR '':'' \<longrightarrow>
       parseIntelHex_line ext mem line = Inr (Next ext mem)
       \<and> parseIntelHex_loop ext mem (line # rest) = parseIntelHex_loop ext mem rest)
   \<and> (rtrim line = [] \<longrightarrow>
       parseIntelHexToMap_line ext mem line = Inr (Next ext mem)
       \<and> parseIntelHexToMap_loop ext mem (line # rest) = parseIntelHexToMap_loop ext mem rest)
   \<and> (rtrim line \<noteq> [] \<and> hd line \<noteq> CHR '':'' \<longrightarrow>
       parseIntelHexToMap_line ext mem line = Inr ReturnFalse
       \<and> parseIntelHexToMap_loop ext mem (line # rest) = Inr (Rejected, ext, mem))"
  using rtrim_nonempty_hd [of line]
  by (auto simp: parseIntelHex_line_def parseIntelHexToMap_line_def Let_def)

theorem lenient_paths_on_non_colon_line_witness:
  "rtrim ''# note'' \<noteq> [] \<and> hd ''# note'' \<noteq> CHR '':''
   \<and> parseIntelHex_loop 0 [] [''# note'', '':00000001FF''] = Inr (EofRecord, 0, [])
   \<and> parseIntelHexToMap_loop 0 [] [''# note'', '':00000001FF''] = Inr (Rejected, 0, [])"
proof -
  have t: "rtrim ''# note'' \<noteq> []" and h: "hd ''# note'' \<noteq> CHR '':''"
    by code_simp+
  have e: "parseIntelHex_loop 0 [] ['':00000001FF''] = Inr (EofRecord, 0, [])"
    by code_simp
  from lenient_paths_on_non_colon_line [of "''# note''" 0 "[]" "['':00000001FF'']"] t h e
  show ?thesis by simp
qed

text \<open>
  The claim as stated fails for the builder of \<open>extractBootloaderVersionFromHex\<close>: a
  comment line in front of an EOF record makes the parse fail, while the EOF record alone
  parses.
\<close>

theorem parseIntelHexToMap_non_colon_line_counterexample:
  "parseIntelHexToMap (Some [''# note'', '':00000001FF'']) = Inr (False, [])
   \<and> parseIntelHexToMap (Some ['':00000001FF'']) = Inr (True, [])"
  by code_simp

section \<open>Extended linear addresses\<close>

lemma mostRecentExt_Nil [simp]: "mostRecentExt [] = 0"
  by (simp add: mostRecentExt_def)













section \<open>The signature search\<close>

lemma length_kBootSig: "length kBootSig = 16"
  by (simp add: kBootSig_def)

lemma signature_at_pattern_at: "signature_at mem addr = pattern_at mem kBootSig addr"
  by (simp only: signature_at_def pattern_at_def length_kBootSig)

lemma all_from_split:
  assumes "i < (n :: nat)"
  shows "(\<forall>j. i \<le> j \<and> j < n \<longrightarrow> P j) = (P i \<and> (\<forall>j. i + 1 \<le> j \<and> j < n \<longrightarrow> P j))"
proof
  assume "\<forall>j. i \<le> j \<and> j < n \<longrightarrow> P j"
  with assms show "P i \<and> (\<forall>j. i + 1 \<le> j \<and> j < n \<longrightarrow> P j)" by simp
next
  assume b: "P i \<and> (\<forall>j. i + 1 \<le> j \<and> j < n \<longrightarrow> P j)"
  show "\<forall>j. i \<le> j \<and> j < n \<longrightarrow> P j"
  proof (intro allI impI)
    fix j assume j: "i \<le> j \<and> j < n"
    show "P j"
    proof (cases "j = i")
      case True
      with b show ?thesis by simp
    next
      case False
      with j have "i + 1 \<le> j \<and> j < n" by simp
      with b show ?thesis by blast
    qed
  qed
qed

lemma pattern_rest_ok_iff:
  "pattern_rest_ok mem pat addr i =
     (\<forall>j. i \<le> j \<and> j < length pat \<longrightarrow> map_of mem (addr + of_nat j) = Some (pat ! j))"
proof (induction "length pat - i" arbitrary: i)
  case 0
  then have "\<not> i < length pat" by simp
  then show ?case by (subst pattern_rest_ok.simps) auto
next
  case (Suc d)
  then have lt: "i < length pat" by simp
  have d: "d = length pat - (i + 1)" using Suc.hyps(2) by simp
  have "pattern_rest_ok mem pat addr i =
          (map_of mem (addr + of_nat i) = Some (pat ! i) \<and> pattern_rest_ok mem pat addr (i + 1))"
    using lt by (subst pattern_rest_ok.simps) (auto split: option.splits)
  also have "\<dots> = (map_of mem (addr + of_nat i) = Some (pat ! i) \<and>
      (\<forall>j. i + 1 \<le> j \<and> j < length pat \<longrightarrow> map_of mem (addr + of_nat j) = Some (pat ! j)))"
    by (simp only: Suc.hyps(1) [OF d])
  also have "\<dots> = (\<forall>j. i \<le> j \<and> j < length pat \<longrightarrow> map_of mem (addr + of_nat j) = Some (pat ! j))"
    by (rule all_from_split [OF lt, symmetric])
  finally show ?case .
qed

lemma image_ok_distinct: "image_ok mem \<Longrightarrow> distinct (map fst mem)"
  by (simp add: image_ok_def strict_sorted_iff)

lemma candidate_iff_pattern_at:
  assumes "distinct (map fst mem)" "(addr, b) \<in> set mem" "pat \<noteq> []"
  shows "(b = pat ! 0 \<and> pattern_rest_ok mem pat addr 1) = pattern_at mem pat addr"
proof -
  have m: "map_of mem addr = Some b" using assms(1,2) by simp
  have lt: "0 < length pat" using assms(3) by simp
  have "pattern_at mem pat addr =
        (\<forall>j. 0 \<le> j \<and> j < length pat \<longrightarrow> map_of mem (addr + of_nat j) = Some (pat ! j))"
    by (simp add: pattern_at_def)
  also have "\<dots> = (map_of mem (addr + of_nat 0) = Some (pat ! 0) \<and>
      (\<forall>j. 0 + 1 \<le> j \<and> j < length pat \<longrightarrow> map_of mem (addr + of_nat j) = Some (pat ! j)))"
    by (rule all_from_split [OF lt])
  also have "\<dots> = (b = pat ! 0 \<and> pattern_rest_ok mem pat addr 1)"
    using m by (auto simp: pattern_rest_ok_iff)
  finally show ?thesis by simp
qed

lemma findPattern_loop_None:
  assumes "distinct (map fst mem)" "pat \<noteq> []" "set its \<subseteq> set mem"
    "\<forall>(addr, b) \<in> set its. \<not> pattern_at mem pat addr"
  shows "findPattern_loop mem pat its = None"
  using assms(3,4)
proof (induction its)
  case Nil
  show ?case by simp
next
  case (Cons p its)
  obtain addr b where p: "p = (addr, b)" by (cases p)
  have "(addr, b) \<in> set mem" and "\<not> pattern_at mem pat addr" using Cons.prems p by auto
  then have "\<not> (b = pat ! 0 \<and> pattern_rest_ok mem pat addr 1)"
    using candidate_iff_pattern_at [OF assms(1) _ assms(2)] by simp
  moreover have "findPattern_loop mem pat its = None" using Cons by auto
  ultimately show ?case by (auto simp: p)
qed

lemma findPattern_loop_first:
  assumes "distinct (map fst mem)" "pat \<noteq> []" "set its \<subseteq> set mem"
    "sorted_wrt (<) (map fst its)" "(a, v) \<in> set its" "pattern_at mem pat a"
    "\<forall>k<a. \<not> pattern_at mem pat k"
  shows "findPattern_loop mem pat its = Some a"
  using assms(3,4,5)
proof (induction its)
  case Nil
  then show ?case by simp
next
  case (Cons p its)
  obtain addr b where p: "p = (addr, b)" by (cases p)
  have in_mem: "(addr, b) \<in> set mem" using Cons.prems(1) p by auto
  note c = candidate_iff_pattern_at [OF assms(1) in_mem assms(2)]
  show ?case
  proof (cases "addr = a")
    case True
    with c assms(6) show ?thesis by (auto simp: p)
  next
    case False
    with Cons.prems(3) p have later: "(a, v) \<in> set its" by auto
    then have "a \<in> set (map fst its)" by force
    with Cons.prems(2) p have "addr < a" by auto
    with assms(7) have "\<not> pattern_at mem pat addr" by simp
    with c have "\<not> (b = pat ! 0 \<and> pattern_rest_ok mem pat addr 1)" by simp
    moreover have "findPattern_loop mem pat its = Some a"
      using Cons.IH Cons.prems later p by auto
    ultimately show ?thesis by (auto simp: p)
  qed
qed

lemma pattern_at_key:
  assumes "pattern_at mem pat a" "pat \<noteq> []"
  shows "\<exists>v. (a, v) \<in> set mem"
proof -
  have "0 < length pat" using assms(2) by simp
  with assms(1) have "map_of mem (a + of_nat 0) = Some (pat ! 0)"
    unfolding pattern_at_def by blast
  then have "map_of mem a = Some (pat ! 0)" by simp
  then have "(a, pat ! 0) \<in> set mem" by (rule map_of_SomeD)
  then show ?thesis ..
qed

lemma findPatternAddress_None:
  assumes "image_ok mem" "pat \<noteq> []" "\<forall>a. \<not> pattern_at mem pat a"
  shows "findPatternAddress mem pat = None"
  using findPattern_loop_None [OF image_ok_distinct [OF assms(1)] assms(2), of mem] assms(3)
  by (auto simp: findPatternAddress_def)

lemma pattern_at_length:
  assumes "pattern_at mem pat a" "length pat \<le> 256"
  shows "length pat \<le> length mem"
proof -
  let ?f = "\<lambda>i. a + of_nat i"
  have inj: "inj_on ?f {..<length pat}"
  proof (rule inj_onI)
    fix i j assume "i \<in> {..<length pat}" "j \<in> {..<length pat}" "a + of_nat i = a + of_nat j"
    then show "i = j" using assms(2) of_nat_u32_inj [of i j] by simp
  qed
  have "?f ` {..<length pat} \<subseteq> fst ` set mem"
  proof
    fix x assume "x \<in> ?f ` {..<length pat}"
    then obtain i where "i < length pat" "x = a + of_nat i" by auto
    then have "map_of mem x = Some (pat ! i)" using assms(1) by (simp add: pattern_at_def)
    then show "x \<in> fst ` set mem" by (force dest: map_of_SomeD)
  qed
  then have "card (?f ` {..<length pat}) \<le> card (fst ` set mem)"
    by (intro card_mono) auto
  also have "card (?f ` {..<length pat}) = length pat" using inj by (simp add: card_image)
  also have "card (fst ` set mem) \<le> length mem"
    by (metis card_image_le card_length le_trans List.finite_set)
  finally show ?thesis .
qed

lemma findPatternAddress_first:
  assumes "image_ok mem" "pat \<noteq> []" "length pat \<le> 256" "pattern_at mem pat a"
    "\<forall>k<a. \<not> pattern_at mem pat k"
  shows "findPatternAddress mem pat = Some a"
proof -
  obtain v where v: "(a, v) \<in> set mem" using pattern_at_key [OF assms(4,2)] ..
  have "\<not> length mem < length pat" using pattern_at_length [OF assms(4,3)] by simp
  moreover have "findPattern_loop mem pat mem = Some a"
    using assms(1) v
    by (intro findPattern_loop_first [OF image_ok_distinct [OF assms(1)] assms(2) _ _ _ assms(4,5)])
       (auto simp: image_ok_def)
  ultimately show ?thesis by (simp add: findPatternAddress_def)
qed

lemma parseIntelHexToMap_line_image_ok:
  "parseIntelHexToMap_line ext mem raw = Inr (Next ext' mem') \<Longrightarrow> image_ok mem \<Longrightarrow> image_ok mem'"
  by (auto simp: parseIntelHexToMap_line_def Let_def split: sum.splits if_splits
           dest: storePayload_image_ok)

lemma parseIntelHexToMap_loop_image_ok:
  "parseIntelHexToMap_loop ext mem lines = Inr (ex, ext', mem') \<Longrightarrow> image_ok mem \<Longrightarrow> image_ok mem'"
proof (induction lines arbitrary: ext mem)
  case Nil
  then show ?case by simp
next
  case (Cons raw rest)
  show ?case
  proof (cases "parseIntelHexToMap_line ext mem raw")
    case (Inl e)
    with Cons.prems show ?thesis by simp
  next
    case (Inr st)
    show ?thesis
    proof (cases st)
      case (Next ext1 mem1)
      with Inr Cons.prems(2) have "image_ok mem1"
        by (auto dest: parseIntelHexToMap_line_image_ok)
      moreover have "parseIntelHexToMap_loop ext1 mem1 rest = Inr (ex, ext', mem')"
        using Cons.prems(1) Inr Next by simp
      ultimately show ?thesis by (rule Cons.IH [rotated])
    next
      case Break
      with Inr Cons.prems show ?thesis by simp
    next
      case ReturnFalse
      with Inr Cons.prems show ?thesis by simp
    qed
  qed
qed

lemma parseIntelHexToMap_image_ok:
  assumes "parseIntelHexToMap file = Inr (parsed, mem)"
  shows "image_ok mem"
proof (cases "file")
  case None
  with assms show ?thesis by (simp add: parseIntelHexToMap_def image_ok_def)
next
  case (Some lines)
  with assms obtain ex ext where "parseIntelHexToMap_loop 0 [] lines = Inr (ex, ext, mem)"
    by (auto simp: parseIntelHexToMap_def split: sum.splits)
  then show ?thesis by (rule parseIntelHexToMap_loop_image_ok) (simp add: image_ok_def)
qed

text \<open>
  Claim C2. On the image that the parse has built, \<open>extractBootloaderVersionFromHex\<close>
  fails when the image has fewer than 16 entries and when the boot signature occurs at no
  address; an address qualifies only when all 16 addresses from it on are present and
  hold the signature bytes. When the signature occurs, the function takes the lowest
  such address \<open>addr\<close> and returns \<open>true\<close> with the bytes at \<open>addr + 16\<close> and
  \<open>addr + 17\<close>, or \<open>false\<close> when one of them is absent.
\<close>

theorem extract_reads_version_after_lowest_signature:
  assumes "parseIntelHexToMap file = Inr (True, mem)"
  shows "(length mem < 16 \<longrightarrow>
            extractBootloaderVersionFromHex file major minor = Inr (False, major, minor))
       \<and> ((\<forall>a. \<not> signature_at mem a) \<longrightarrow>
            extractBootloaderVersionFromHex file major minor = Inr (False, major, minor))
       \<and> (signature_at mem addr \<and> (\<forall>b<addr. \<not> signature_at mem b) \<longrightarrow>
            extractBootloaderVersionFromHex file major minor =
              (case map_of mem (addr + 16) of
                 None \<Rightarrow> Inr (False, major, minor)
               | Some mj \<Rightarrow>
                   (case map_of mem (addr + 17) of
                      None \<Rightarrow> Inr (False, major, minor)
                    | Some mn \<Rightarrow> Inr (True, mj, mn))))"
proof -
  have ok: "image_ok mem" using assms by (rule parseIntelHexToMap_image_ok)
  have ne: "kBootSig \<noteq> []" and le: "length kBootSig \<le> 256"
    by (simp_all add: kBootSig_def)
  have a: "extractBootloaderVersionFromHex file major minor = Inr (False, major, minor)"
    if "findPatternAddress mem kBootSig = None"
    using that assms by (simp add: extractBootloaderVersionFromHex_def)
  have "findPatternAddress mem kBootSig = None" if "length mem < 16"
    using that by (simp add: findPatternAddress_def length_kBootSig)
  moreover have "findPatternAddress mem kBootSig = None" if "\<forall>a. \<not> signature_at mem a"
    using that findPatternAddress_None [OF ok ne] by (simp add: signature_at_pattern_at)
  moreover have "extractBootloaderVersionFromHex file major minor =
              (case map_of mem (addr + 16) of
                 None \<Rightarrow> Inr (False, major, minor)
               | Some mj \<Rightarrow>
                   (case map_of mem (addr + 17) of
                      None \<Rightarrow> Inr (False, major, minor)
                    | Some mn \<Rightarrow> Inr (True, mj, mn)))"
    if "signature_at mem addr \<and> (\<forall>b<addr. \<not> signature_at mem b)"
  proof -
    have "findPatternAddress mem kBootSig = Some addr"
      using that findPatternAddress_first [OF ok ne le, of addr]
      by (simp add: signature_at_pattern_at)
    then show ?thesis
      using assms
      by (auto simp: extractBootloaderVersionFromHex_def kBootSigLen_def length_kBootSig Let_def
                     add.commute
               split: option.splits)
  qed
  ultimately show ?thesis using a by blast
qed

lemma parseIntelHexToMap_line_record:
  assumes "record_shape (rtrim raw)" "validateLineChecksum (rtrim raw) = Inr True"
  shows "parseIntelHexToMap_line ext mem raw =
     (if hexByteAt (rtrim raw) 7 = 0x00
      then (case storePayload (rtrim raw) (absoluteAddress ext (hexWordAt (rtrim raw) 3))
                   (hexByteAt (rtrim raw) 1) 0 mem of
              Inl e \<Rightarrow> Inl e
            | Inr mem' \<Rightarrow> Inr (Next ext mem'))
      else if hexByteAt (rtrim raw) 7 = 0x04
      then (if hexByteAt (rtrim raw) 1 \<noteq> 2 then Inr ReturnFalse
            else Inr (Next (ucast (hexWordAt (rtrim raw) 9)) mem))
      else if hexByteAt (rtrim raw) 7 = 0x01 then Inr Break
      else Inr (Next ext mem))"
proof -
  let ?l = "rtrim raw"
  have hex: "list_all isHexChar (tl ?l)" and ne: "?l \<noteq> []" and hd: "hd ?l = CHR '':''"
    and len: "length ?l = 9 + unat (hexByteAt ?l 1) * 2 + 2" and ge: "11 \<le> length ?l"
    using assms(1) by (simp_all add: record_shape_def)
  have f1: "parseHexByte ?l 1 = Inr (hexByteAt ?l 1)" and f7: "parseHexByte ?l 7 = Inr (hexByteAt ?l 7)"
    using hex ge by (simp_all add: parseHexByte_hex)
  have f3: "parseHexWord ?l 3 = Inr (hexWordAt ?l 3)" and f9: "parseHexWord ?l 9 = Inr (hexWordAt ?l 9)"
    using hex ge by (simp_all add: parseHexWord_hex)
  have h1: "hexByte ?l 1 = Inr (hexByteAt ?l 1)" and h7: "hexByte ?l 7 = Inr (hexByteAt ?l 7)"
    using f1 f7 by (simp_all only: hexByte_eq)
  have len': "length ?l = 1 + 2 * (unat (hexByteAt ?l 1) + 5)" using len by simp
  have ge': "\<not> length ?l < 11" using ge by simp
  show ?thesis
    unfolding parseIntelHexToMap_line_def Let_def
    by (simp only: ne hd hex ge' h1 f3 h7 f9 len' assms(2) if_False if_True sum.case
                   not_not simp_thms)
       simp
qed

theorem extract_reads_version_after_lowest_signature_witness:
  "parseIntelHexToMap
     (Some ['':12800000200FF9A7177D4E99DB53A272E7C3E1FA0668EF'', '':00000001FF''])
     = Inr (True, [(0x8000, 0x20), (0x8001, 0x0F), (0x8002, 0xF9), (0x8003, 0xA7),
                   (0x8004, 0x17), (0x8005, 0x7D), (0x8006, 0x4E), (0x8007, 0x99),
                   (0x8008, 0xDB), (0x8009, 0x53), (0x800A, 0xA2), (0x800B, 0x72),
                   (0x800C, 0xE7), (0x800D, 0xC3), (0x800E, 0xE1), (0x800F, 0xFA),
                   (0x8010, 0x06), (0x8011, 0x68)])
   \<and> extractBootloaderVersionFromHex
     (Some ['':12800000200FF9A7177D4E99DB53A272E7C3E1FA0668EF'', '':00000001FF'']) 0 0
     = Inr (True, 0x06, 0x68)"
proof -
  let ?l = "'':12800000200FF9A7177D4E99DB53A272E7C3E1FA0668EF''"
  let ?img = "[(0x8000, 0x20), (0x8001, 0x0F), (0x8002, 0xF9), (0x8003, 0xA7),
               (0x8004, 0x17), (0x8005, 0x7D), (0x8006, 0x4E), (0x8007, 0x99),
               (0x8008, 0xDB), (0x8009, 0x53), (0x800A, 0xA2), (0x800B, 0x72),
               (0x800C, 0xE7), (0x800D, 0xC3), (0x800E, 0xE1), (0x800F, 0xFA),
               (0x8010, 0x06), (0x8011, 0x68)] :: MemoryImage"
  have t: "rtrim ?l = ?l" by code_simp
  have sh: "record_shape ?l" by code_simp
  have ck: "validateLineChecksum ?l = Inr True" by code_simp
  have f: "hexByteAt ?l 7 = 0" "hexByteAt ?l 1 = 18" "hexWordAt ?l 3 = 0x8000"
    by (simp_all add: hexByteAt_def hexWordAt_def hexval_def hexDigitVal_def)
  have ab: "absoluteAddress 0 0x8000 = 0x8000" by (simp add: absoluteAddress_def)
  have st: "storePayload ?l 0x8000 18 0 [] = Inr ?img" by code_simp
  have s1: "parseIntelHexToMap_line 0 [] ?l = Inr (Next 0 ?img)"
    using parseIntelHexToMap_line_record [of ?l 0 "[]"] sh ck
    unfolding t f ab st by simp
  have s2: "parseIntelHexToMap_line 0 ?img '':00000001FF'' = Inr Break" by code_simp
  have p: "parseIntelHexToMap (Some [?l, '':00000001FF'']) = Inr (True, ?img)"
    by (simp add: parseIntelHexToMap_def s1 s2)
  have sig: "signature_at ?img 0x8000" by code_simp
  have low: "\<forall>b<0x8000. \<not> signature_at ?img b"
  proof (intro allI impI notI)
    fix b :: u32 assume b: "b < 0x8000" and s: "signature_at ?img b"
    from s [unfolded signature_at_def]
    have "0 < (16 :: nat) \<longrightarrow> map_of ?img (b + of_nat 0) = Some (kBootSig ! 0)"
      by (rule spec)
    then have "map_of ?img b = Some 0x20" by (simp add: kBootSig_def)
    then have "b = 0x8000" by (simp split: if_splits)
    with b show False by simp
  qed
  have v: "map_of ?img (0x8000 + 16) = Some 0x06" "map_of ?img (0x8000 + 17) = Some 0x68"
    by simp_all
  from extract_reads_version_after_lowest_signature [OF p, where addr = "0x8000" and major = 0 and minor = 0] sig low
  have "extractBootloaderVersionFromHex (Some [?l, '':00000001FF'']) 0 0 = Inr (True, 0x06, 0x68)"
    unfolding v by simp
  with p show ?thesis ..
qed

section \<open>The validator\<close>

lemma validateHexFile_line_record:
  assumes "line_checks_pass (trimTrailing raw)"
  shows "validateHexFile_line n eofSeen ext w raw =
     (if hexByteAt (trimTrailing raw) 7 = 0x01 \<and> eofSeen
      then Inr (Fail ''Multiple EOF records detected.'')
      else if hexByteAt (trimTrailing raw) 7 = 0x00
      then (case overlap_loop (absoluteAddress ext (hexWordAt (trimTrailing raw) 3))
                   (hexByteAt (trimTrailing raw) 1) 0 w of
              Inl a \<Rightarrow> Inr (Fail (''Overlapping data at address 0x'' @ hexUpper a))
            | Inr w' \<Rightarrow> Inr (Pass (eofSeen \<or> hexByteAt (trimTrailing raw) 7 = 0x01) ext w'))
      else if hexByteAt (trimTrailing raw) 7 = 0x04
      then Inr (Pass (eofSeen \<or> hexByteAt (trimTrailing raw) 7 = 0x01)
                  (ucast (hexWordAt (trimTrailing raw) 9)) w)
      else Inr (Pass (eofSeen \<or> hexByteAt (trimTrailing raw) 7 = 0x01) ext w))"
proof -
  let ?l = "trimTrailing raw"
  have sh: "record_shape ?l" and ck: "validateLineChecksum ?l = Inr True"
    and ty: "\<not> 0x05 < hexByteAt ?l 7"
    using assms by (simp_all add: line_checks_pass_def not_less)
  have hex: "list_all isHexChar (tl ?l)" and ne: "?l \<noteq> []" and hd: "hd ?l = CHR '':''"
    and len: "length ?l = 9 + unat (hexByteAt ?l 1) * 2 + 2" and ge: "\<not> length ?l < 11"
    using sh by (simp_all add: record_shape_def)
  have f1: "parseHexByte ?l 1 = Inr (hexByteAt ?l 1)" and f7: "parseHexByte ?l 7 = Inr (hexByteAt ?l 7)"
    using hex ge by (simp_all add: parseHexByte_hex)
  have f3: "parseHexWord ?l 3 = Inr (hexWordAt ?l 3)" and f9: "parseHexWord ?l 9 = Inr (hexWordAt ?l 9)"
    using hex ge by (simp_all add: parseHexWord_hex)
  show ?thesis
    unfolding validateHexFile_line_def Let_def
    by (simp only: ne hd hex ge f1 f3 f7 f9 ck ty if_False if_True sum.case not_not simp_thms)
       (simp add: len)
qed

lemma addresses_distinct:
  assumes "n \<le> 256"
  shows "distinct (map (\<lambda>i. (base :: u32) + of_nat i) [i0..<n])"
proof -
  have "inj_on (\<lambda>i. base + of_nat i) (set [i0..<n])"
  proof (rule inj_onI)
    fix i j assume "i \<in> set [i0..<n]" "j \<in> set [i0..<n]" "base + of_nat i = base + of_nat j"
    then show "i = j" using assms of_nat_u32_inj [of i j] by simp
  qed
  then show ?thesis by (simp add: distinct_map)
qed

lemma overlap_loop_result:
  "(overlap_loop base bc i w = Inr w' \<longrightarrow>
      set (map (\<lambda>j. base + of_nat j) [i..<unat bc]) \<inter> w = {}
      \<and> w' = w \<union> set (map (\<lambda>j. base + of_nat j) [i..<unat bc]))
   \<and> (overlap_loop base bc i w = Inl a \<longrightarrow>
      a \<in> set (map (\<lambda>j. base + of_nat j) [i..<unat bc]) \<and> a \<in> w)"
proof (induction "unat bc - i" arbitrary: i w)
  case 0
  then have "\<not> i < unat bc" by simp
  then show ?case by (subst overlap_loop.simps, subst overlap_loop.simps) auto
next
  case (Suc d)
  then have lt: "i < unat bc" by simp
  have d: "d = unat bc - (i + 1)" using Suc.hyps(2) by simp
  let ?a = "base + of_nat i"
  let ?rest = "map (\<lambda>j. base + of_nat j) [i + 1..<unat bc]"
  have split: "map (\<lambda>j. base + of_nat j) [i..<unat bc] = ?a # ?rest"
    using lt by (simp add: upt_conv_Cons)
  have "distinct (map (\<lambda>j. base + of_nat j) [i..<unat bc])"
    using unat_u8_lt [of bc] by (intro addresses_distinct) simp
  then have fresh: "?a \<notin> set ?rest" unfolding split by simp
  show ?case
  proof (cases "?a \<in> w")
    case True
    then have "overlap_loop base bc i w = Inl ?a"
      using lt by (subst overlap_loop.simps) (simp add: Let_def)
    with True show ?thesis unfolding split by auto
  next
    case False
    then have step: "overlap_loop base bc i w = overlap_loop base bc (i + 1) (insert ?a w)"
      using lt by (subst overlap_loop.simps) (simp add: Let_def)
    note ih = Suc.hyps(1) [OF d, of "insert ?a w"]
    show ?thesis
    proof (intro conjI impI)
      assume "overlap_loop base bc i w = Inr w'"
      with step ih have "set ?rest \<inter> insert ?a w = {}" and "w' = insert ?a w \<union> set ?rest"
        by simp_all
      with False show "set (map (\<lambda>j. base + of_nat j) [i..<unat bc]) \<inter> w = {}"
        and "w' = w \<union> set (map (\<lambda>j. base + of_nat j) [i..<unat bc])"
        unfolding split by auto
    next
      assume "overlap_loop base bc i w = Inl a"
      with step ih have r: "a \<in> set ?rest" and k: "a \<in> insert ?a w" by simp_all
      from r fresh have "a \<noteq> ?a" by blast
      with k show "a \<in> w" by simp
      from r show "a \<in> set (map (\<lambda>j. base + of_nat j) [i..<unat bc])"
        unfolding split by simp
    qed
  qed
qed

lemma validateHexFile_loop_record:
  assumes "line_checks_pass (trimTrailing raw)"
  shows "validateHexFile_loop n eofSeen ext w e (raw # rest) =
     (if hexByteAt (trimTrailing raw) 7 = 0x01 \<and> eofSeen
      then Inr (False, ''Multiple EOF records detected.'')
      else if hexByteAt (trimTrailing raw) 7 = 0x00
      then (case overlap_loop (absoluteAddress ext (hexWordAt (trimTrailing raw) 3))
                   (hexByteAt (trimTrailing raw) 1) 0 w of
              Inl a \<Rightarrow> Inr (False, ''Overlapping data at address 0x'' @ hexUpper a)
            | Inr w' \<Rightarrow> validateHexFile_loop (n + 1) eofSeen ext w' e rest)
      else if hexByteAt (trimTrailing raw) 7 = 0x04
      then validateHexFile_loop (n + 1) eofSeen (ucast (hexWordAt (trimTrailing raw) 9)) w e rest
      else validateHexFile_loop (n + 1) (eofSeen \<or> hexByteAt (trimTrailing raw) 7 = 0x01)
             ext w e rest)"
  by (simp add: validateHexFile_line_record [OF assms] split: sum.splits)

declare validateHexFile_loop.simps(2) [simp del]

lemma overlap_loop_disjoint:
  assumes "set (map (\<lambda>j. base + of_nat j) [0..<unat bc]) \<inter> w = {}"
  shows "overlap_loop base bc 0 w = Inr (w \<union> set (map (\<lambda>j. base + of_nat j) [0..<unat bc]))"
proof (cases "overlap_loop base bc 0 w")
  case (Inl a)
  with overlap_loop_result [of base bc 0 w _ a] assms show ?thesis by blast
next
  case (Inr w')
  with overlap_loop_result [of base bc 0 w w'] show ?thesis by simp
qed

lemma overlap_loop_overlapping:
  assumes "set (map (\<lambda>j. base + of_nat j) [0..<unat bc]) \<inter> w \<noteq> {}"
  shows "\<exists>a. overlap_loop base bc 0 w = Inl a
           \<and> a \<in> set (map (\<lambda>j. base + of_nat j) [0..<unat bc]) \<and> a \<in> w"
proof (cases "overlap_loop base bc 0 w")
  case (Inl a)
  with overlap_loop_result [of base bc 0 w _ a] show ?thesis by simp
next
  case (Inr w')
  with overlap_loop_result [of base bc 0 w w'] assms show ?thesis by simp
qed

lemma eof_count_Cons:
  "eof_count (line # rest) = (if hexByteAt line 7 = 0x01 then 1 else 0) + eof_count rest"
  by (simp add: eof_count_def)

lemma validateHexFile_loop_no_overlap:
  assumes "\<forall>raw \<in> set lines. line_checks_pass (trimTrailing raw)"
    "distinct (data_writes ext (map trimTrailing lines))"
    "set (data_writes ext (map trimTrailing lines)) \<inter> w = {}"
  shows "validateHexFile_loop n eofSeen ext w e lines =
     (if eof_count (map trimTrailing lines) + (if eofSeen then 1 else 0) = 0
      then Inr (False, ''Missing EOF record.'')
      else if eof_count (map trimTrailing lines) + (if eofSeen then 1 else 0) = 1
      then Inr (True, e)
      else Inr (False, ''Multiple EOF records detected.''))"
  using assms
proof (induction lines arbitrary: n eofSeen ext w)
  case Nil
  show ?case by (simp add: eof_count_def)
next
  case (Cons raw rest)
  let ?l = "trimTrailing raw"
  let ?t = "hexByteAt ?l 7"
  let ?addrs = "map (\<lambda>i. absoluteAddress ext (hexWordAt ?l 3) + of_nat i) [0..<unat (hexByteAt ?l 1)]"
  have ok: "line_checks_pass ?l" and oks: "\<forall>raw \<in> set rest. line_checks_pass (trimTrailing raw)"
    using Cons.prems(1) by simp_all
  note step = validateHexFile_loop_record [OF ok, of n eofSeen ext w e rest]
  show ?case
  proof (cases "?t = 0x00")
    case True
    have ws: "data_writes ext (map trimTrailing (raw # rest)) =
              ?addrs @ data_writes ext (map trimTrailing rest)"
      using True by simp
    have d: "distinct (data_writes ext (map trimTrailing rest))"
      and x: "set (data_writes ext (map trimTrailing rest)) \<inter> (w \<union> set ?addrs) = {}"
      and y: "set ?addrs \<inter> w = {}"
      using Cons.prems(2,3) unfolding ws by auto
    have "validateHexFile_loop n eofSeen ext w e (raw # rest) =
          validateHexFile_loop (n + 1) eofSeen ext (w \<union> set ?addrs) e rest"
      using True step overlap_loop_disjoint [OF y] by simp
    also note Cons.IH [OF oks d x, of "n + 1" eofSeen]
    finally show ?thesis using True by (simp add: eof_count_Cons)
  next
    case nd: False
    show ?thesis
    proof (cases "?t = 0x04")
      case True
      have ws: "data_writes ext (map trimTrailing (raw # rest)) =
                data_writes (ucast (hexWordAt ?l 9)) (map trimTrailing rest)"
        using True by simp
      have "validateHexFile_loop n eofSeen ext w e (raw # rest) =
            validateHexFile_loop (n + 1) eofSeen (ucast (hexWordAt ?l 9)) w e rest"
        using True step by simp
      also note Cons.IH [OF oks, of "ucast (hexWordAt ?l 9)" w "n + 1" eofSeen]
      finally show ?thesis using True Cons.prems(2,3) unfolding ws by (simp add: eof_count_Cons)
    next
      case ne: False
      have ws: "data_writes ext (map trimTrailing (raw # rest)) =
                data_writes ext (map trimTrailing rest)"
        using nd ne by simp
      show ?thesis
      proof (cases "?t = 0x01 \<and> eofSeen")
        case True
        then show ?thesis using step by (simp add: eof_count_Cons)
      next
        case False
        then have "validateHexFile_loop n eofSeen ext w e (raw # rest) =
              validateHexFile_loop (n + 1) (eofSeen \<or> ?t = 0x01) ext w e rest"
          using nd ne step by auto
        also note Cons.IH [OF oks, of ext w "n + 1" "eofSeen \<or> ?t = 0x01"]
        finally show ?thesis using False Cons.prems(2,3) unfolding ws
          by (auto simp: eof_count_Cons)
      qed
    qed
  qed
qed

lemma validateHexFile_loop_overlap:
  assumes "\<forall>raw \<in> set lines. line_checks_pass (trimTrailing raw)"
    "\<not> (distinct (data_writes ext (map trimTrailing lines))
         \<and> set (data_writes ext (map trimTrailing lines)) \<inter> w = {})"
  shows "\<exists>msg. validateHexFile_loop n eofSeen ext w e lines = Inr (False, msg)
           \<and> (msg = ''Multiple EOF records detected.''
              \<or> (\<exists>a. msg = ''Overlapping data at address 0x'' @ hexUpper a
                    \<and> a \<in> set (data_writes ext (map trimTrailing lines))
                    \<and> (a \<in> w \<or> 1 < count_list (data_writes ext (map trimTrailing lines)) a)))"
  using assms
proof (induction lines arbitrary: n eofSeen ext w)
  case Nil
  then show ?case by simp
next
  case (Cons raw rest)
  let ?l = "trimTrailing raw"
  let ?t = "hexByteAt ?l 7"
  let ?addrs = "map (\<lambda>i. absoluteAddress ext (hexWordAt ?l 3) + of_nat i) [0..<unat (hexByteAt ?l 1)]"
  have ok: "line_checks_pass ?l" and oks: "\<forall>raw \<in> set rest. line_checks_pass (trimTrailing raw)"
    using Cons.prems(1) by simp_all
  note step = validateHexFile_loop_record [OF ok, of n eofSeen ext w e rest]
  show ?case
  proof (cases "?t = 0x00")
    case True
    let ?ws = "data_writes ext (map trimTrailing rest)"
    have ws: "data_writes ext (map trimTrailing (raw # rest)) = ?addrs @ ?ws"
      using True by simp
    have da: "distinct ?addrs"
      using unat_u8_lt [of "hexByteAt ?l 1"] by (intro addresses_distinct) simp
    show ?thesis
    proof (cases "set ?addrs \<inter> w = {}")
      case False
      from overlap_loop_overlapping [OF False]
      obtain a where "overlap_loop (absoluteAddress ext (hexWordAt ?l 3)) (hexByteAt ?l 1) 0 w = Inl a"
        and "a \<in> set ?addrs" and "a \<in> w" by blast
      then show ?thesis using True step unfolding ws by auto
    next
      case disj: True
      have r: "validateHexFile_loop n eofSeen ext w e (raw # rest) =
          validateHexFile_loop (n + 1) eofSeen ext (w \<union> set ?addrs) e rest"
        using True step overlap_loop_disjoint [OF disj] by simp
      have "\<not> (distinct ?ws \<and> set ?ws \<inter> (w \<union> set ?addrs) = {})"
        using Cons.prems(2) da disj unfolding ws by auto
      from Cons.IH [OF oks this, of "n + 1" eofSeen]
      obtain msg where m: "validateHexFile_loop (n + 1) eofSeen ext (w \<union> set ?addrs) e rest
                             = Inr (False, msg)"
        and c: "msg = ''Multiple EOF records detected.''
              \<or> (\<exists>a. msg = ''Overlapping data at address 0x'' @ hexUpper a
                    \<and> a \<in> set ?ws \<and> (a \<in> w \<union> set ?addrs \<or> 1 < count_list ?ws a))"
        by blast
      have "a \<in> w \<or> 1 < count_list (?addrs @ ?ws) a"
        if "a \<in> set ?ws" "a \<in> w \<union> set ?addrs \<or> 1 < count_list ?ws a" for a
      proof -
        have pos: "0 < count_list xs x" if "x \<in> set xs" for xs :: "u32 list" and x
          using that count_list_0_iff [of xs x] by (cases "count_list xs x") simp_all
        have p: "0 < count_list ?ws a" using that(1) by (rule pos)
        have "0 < count_list ?addrs a" if "a \<in> set ?addrs"
          using that by (rule pos)
        with that p show ?thesis by auto
      qed
      with c have "msg = ''Multiple EOF records detected.''
              \<or> (\<exists>a. msg = ''Overlapping data at address 0x'' @ hexUpper a
                    \<and> a \<in> set (?addrs @ ?ws) \<and> (a \<in> w \<or> 1 < count_list (?addrs @ ?ws) a))"
        by auto
      with m r show ?thesis unfolding ws by simp
    qed
  next
    case nd: False
    show ?thesis
    proof (cases "?t = 0x04")
      case True
      have ws: "data_writes ext (map trimTrailing (raw # rest)) =
                data_writes (ucast (hexWordAt ?l 9)) (map trimTrailing rest)"
        using True by simp
      have "validateHexFile_loop n eofSeen ext w e (raw # rest) =
            validateHexFile_loop (n + 1) eofSeen (ucast (hexWordAt ?l 9)) w e rest"
        using True step by simp
      with Cons.IH [OF oks, of "ucast (hexWordAt ?l 9)" w "n + 1" eofSeen] Cons.prems(2)
      show ?thesis unfolding ws by simp
    next
      case ne: False
      have ws: "data_writes ext (map trimTrailing (raw # rest)) =
                data_writes ext (map trimTrailing rest)"
        using nd ne by simp
      show ?thesis
      proof (cases "?t = 0x01 \<and> eofSeen")
        case True
        then show ?thesis using step by simp
      next
        case False
        then have "validateHexFile_loop n eofSeen ext w e (raw # rest) =
              validateHexFile_loop (n + 1) (eofSeen \<or> ?t = 0x01) ext w e rest"
          using nd ne step by auto
        with Cons.IH [OF oks, of ext w "n + 1" "eofSeen \<or> ?t = 0x01"] Cons.prems(2)
        show ?thesis unfolding ws by simp
      qed
    qed
  qed
qed

lemma hexDigitVal_hexDigitUpper: "d < 16 \<Longrightarrow> hexDigitVal (hexDigitUpper d) = d"
  by (auto simp: hexDigitVal_def hexDigitUpper_def Let_def)

lemma hexDigitUpper_upper: "d < 16 \<Longrightarrow> isUpperHexChar (hexDigitUpper d)"
  by (auto simp: hexDigitUpper_def isUpperHexChar_def Let_def)

lemma hexUpperNat_upper: "list_all isUpperHexChar (hexUpperNat n)"
proof (induction n rule: hexUpperNat.induct)
  case (1 n)
  show ?case
  proof (cases "n < 16")
    case True
    then show ?thesis
      using hexDigitUpper_upper [of n] by (subst hexUpperNat.simps) simp
  next
    case False
    then show ?thesis
      using "1.IH" hexDigitUpper_upper [of "n mod 16"]
      by (subst hexUpperNat.simps) simp
  qed
qed

lemma hexval_hexUpperNat: "hexval (hexUpperNat n) = n"
proof (induction n rule: hexUpperNat.induct)
  case (1 n)
  show ?case
  proof (cases "n < 16")
    case True
    then show ?thesis
      by (subst hexUpperNat.simps) (simp add: hexval_def hexDigitVal_hexDigitUpper)
  next
    case False
    then have "hexval (hexUpperNat n) = 16 * hexval (hexUpperNat (n div 16)) + n mod 16"
      by (subst hexUpperNat.simps) (simp add: hexval_snoc hexDigitVal_hexDigitUpper)
    with False "1.IH" show ?thesis by simp
  qed
qed

lemma validateHexFile_line_bad:
  assumes "\<not> line_checks_pass (trimTrailing raw)"
  shows "\<exists>msg. validateHexFile_line n eofSeen ext w raw = Inr (Fail msg)"
proof -
  let ?l = "trimTrailing raw"
  show ?thesis
  proof (cases "?l = [] \<or> hd ?l \<noteq> CHR '':'' \<or> \<not> list_all isHexChar (tl ?l) \<or> length ?l < 11")
    case True
    then show ?thesis by (auto simp: validateHexFile_line_def Let_def)
  next
    case False
    then have ne: "?l \<noteq> []" and hd: "hd ?l = CHR '':''" and hex: "list_all isHexChar (tl ?l)"
      and ge: "\<not> length ?l < 11"
      by simp_all
    have f1: "parseHexByte ?l 1 = Inr (hexByteAt ?l 1)" and f7: "parseHexByte ?l 7 = Inr (hexByteAt ?l 7)"
      using hex ge by (simp_all add: parseHexByte_hex)
    have f3: "parseHexWord ?l 3 = Inr (hexWordAt ?l 3)"
      using hex ge by (simp add: parseHexWord_hex)
    show ?thesis
    proof (cases "length ?l = 9 + unat (hexByteAt ?l 1) * 2 + 2")
      case ln: False
      show ?thesis
        unfolding validateHexFile_line_def Let_def
        by (simp only: ne hd hex ge f1 f3 f7 ln if_False if_True sum.case not_not simp_thms)
           simp
    next
      case ln: True
      have sh: "record_shape ?l"
        using ne hd hex ge ln by (simp add: record_shape_def)
      from validateLineChecksum_record [OF sh]
      obtain ok where ck: "validateLineChecksum ?l = Inr ok" by blast
      have bad: "\<not> ok \<or> 0x05 < hexByteAt ?l 7"
        using assms sh ck by (auto simp: line_checks_pass_def not_le)
      show ?thesis
        unfolding validateHexFile_line_def Let_def
        using bad
        by (simp only: ne hd hex ge f1 f3 f7 ln ck if_False if_True sum.case not_not simp_thms)
           auto
    qed
  qed
qed

lemma validateHexFile_loop_bad_line:
  assumes "\<not> (\<forall>raw \<in> set lines. line_checks_pass (trimTrailing raw))"
  shows "\<exists>msg. validateHexFile_loop n eofSeen ext w e lines = Inr (False, msg)"
  using assms
proof (induction lines arbitrary: n eofSeen ext w)
  case Nil
  then show ?case by simp
next
  case (Cons raw rest)
  show ?case
  proof (cases "line_checks_pass (trimTrailing raw)")
    case False
    from validateHexFile_line_bad [OF False, of "n + 1" eofSeen ext w]
    show ?thesis by (auto simp: validateHexFile_loop.simps(2))
  next
    case True
    with Cons.prems have r: "\<not> (\<forall>raw \<in> set rest. line_checks_pass (trimTrailing raw))"
      by simp
    note ih = Cons.IH [OF r]
    show ?thesis
      unfolding validateHexFile_loop_record [OF True]
      using ih by (auto split: sum.splits)
  qed
qed

lemma validateHexFile_loop_multiple_eof:
  assumes "\<forall>raw \<in> set lines. line_checks_pass (trimTrailing raw)"
    "validateHexFile_loop n eofSeen ext w e lines = Inr (False, ''Multiple EOF records detected.'')"
  shows "2 \<le> eof_count (map trimTrailing lines) + (if eofSeen then 1 else 0)"
  using assms
proof (induction lines arbitrary: n eofSeen ext w)
  case Nil
  then show ?case by (simp split: if_splits)
next
  case (Cons raw rest)
  let ?l = "trimTrailing raw"
  let ?t = "hexByteAt ?l 7"
  have ok: "line_checks_pass ?l" and oks: "\<forall>raw \<in> set rest. line_checks_pass (trimTrailing raw)"
    using Cons.prems(1) by simp_all
  note step = validateHexFile_loop_record [OF ok, of n eofSeen ext w e rest]
  show ?case
  proof (cases "?t = 0x01 \<and> eofSeen")
    case True
    then show ?thesis by (simp add: eof_count_Cons)
  next
    case False
    show ?thesis
    proof (cases "?t = 0x00")
      case True
      with Cons.prems(2) step obtain w' where
        "validateHexFile_loop (n + 1) eofSeen ext w' e rest
           = Inr (False, ''Multiple EOF records detected.'')"
        by (auto split: sum.splits)
      from Cons.IH [OF oks this] True show ?thesis by (simp add: eof_count_Cons)
    next
      case nd: False
      show ?thesis
      proof (cases "?t = 0x04")
        case True
        with Cons.prems(2) step False have
          "validateHexFile_loop (n + 1) eofSeen (ucast (hexWordAt ?l 9)) w e rest
             = Inr (False, ''Multiple EOF records detected.'')"
          by simp
        from Cons.IH [OF oks this] True show ?thesis by (simp add: eof_count_Cons)
      next
        case ne: False
        with Cons.prems(2) step False nd have
          "validateHexFile_loop (n + 1) (eofSeen \<or> ?t = 0x01) ext w e rest
             = Inr (False, ''Multiple EOF records detected.'')"
          by auto
        from Cons.IH [OF oks this] False show ?thesis by (auto simp: eof_count_Cons)
      qed
    qed
  qed
qed

text \<open>
  A run of lines that pass the line-level checks, write no address twice and none already
  written, and bring at most one EOF record is consumed by the loop without leaving it:
  the loop continues on the rest of the file with the line number, the EOF flag, the
  extended linear address and the set of written addresses that the run leaves.
\<close>

lemma data_writes_append:
  "data_writes ext (xs @ ys) = data_writes ext xs @ data_writes (ext_after ext xs) ys"
  by (induction xs arbitrary: ext) auto

lemma eof_count_append: "eof_count (xs @ ys) = eof_count xs + eof_count ys"
  by (simp add: eof_count_def)

lemma validateHexFile_loop_prefix:
  assumes "\<forall>raw \<in> set pre. line_checks_pass (trimTrailing raw)"
    "distinct (data_writes ext (map trimTrailing pre))"
    "set (data_writes ext (map trimTrailing pre)) \<inter> w = {}"
    "eof_count (map trimTrailing pre) + (if eofSeen then 1 else 0) \<le> 1"
  shows "validateHexFile_loop n eofSeen ext w e (pre @ rest) =
         validateHexFile_loop (n + length pre) (eofSeen \<or> 0 < eof_count (map trimTrailing pre))
           (ext_after ext (map trimTrailing pre)) (w \<union> set (data_writes ext (map trimTrailing pre)))
           e rest"
  using assms
proof (induction pre arbitrary: n eofSeen ext w)
  case Nil
  show ?case by (simp add: eof_count_def)
next
  case (Cons raw pre)
  let ?l = "trimTrailing raw"
  let ?t = "hexByteAt ?l 7"
  let ?addrs = "map (\<lambda>i. absoluteAddress ext (hexWordAt ?l 3) + of_nat i) [0..<unat (hexByteAt ?l 1)]"
  have ok: "line_checks_pass ?l" and oks: "\<forall>raw \<in> set pre. line_checks_pass (trimTrailing raw)"
    using Cons.prems(1) by simp_all
  note step = validateHexFile_loop_record [OF ok, of n eofSeen ext w e "pre @ rest"]
  have cnt: "(if ?t = 0x01 then 1 else 0) + eof_count (map trimTrailing pre)
               + (if eofSeen then 1 else 0) \<le> (1 :: nat)"
    using Cons.prems(4) by (simp add: eof_count_Cons)
  show ?case
  proof (cases "?t = 0x00")
    case True
    have ws: "data_writes ext (map trimTrailing (raw # pre)) =
              ?addrs @ data_writes ext (map trimTrailing pre)"
      using True by simp
    have d: "distinct (data_writes ext (map trimTrailing pre))"
      and x: "set (data_writes ext (map trimTrailing pre)) \<inter> (w \<union> set ?addrs) = {}"
      and y: "set ?addrs \<inter> w = {}"
      using Cons.prems(2,3) unfolding ws by auto
    have c: "eof_count (map trimTrailing pre) + (if eofSeen then 1 else 0) \<le> 1"
      using cnt True by simp
    have "validateHexFile_loop n eofSeen ext w e ((raw # pre) @ rest) =
          validateHexFile_loop (n + 1) eofSeen ext (w \<union> set ?addrs) e (pre @ rest)"
      using True step overlap_loop_disjoint [OF y] by simp
    also note Cons.IH [OF oks d x c, of "n + 1"]
    finally show ?thesis unfolding ws using True
      by (simp add: eof_count_Cons Un_assoc)
  next
    case nd: False
    show ?thesis
    proof (cases "?t = 0x04")
      case True
      have ws: "data_writes ext (map trimTrailing (raw # pre)) =
                data_writes (ucast (hexWordAt ?l 9)) (map trimTrailing pre)"
        using True by simp
      have c: "eof_count (map trimTrailing pre) + (if eofSeen then 1 else 0) \<le> 1"
        using cnt True by simp
      have "validateHexFile_loop n eofSeen ext w e ((raw # pre) @ rest) =
            validateHexFile_loop (n + 1) eofSeen (ucast (hexWordAt ?l 9)) w e (pre @ rest)"
        using True step by simp
      also note Cons.IH [OF oks _ _ c, of "ucast (hexWordAt ?l 9)" w "n + 1"]
      finally show ?thesis using True Cons.prems(2,3) unfolding ws
        by (simp add: eof_count_Cons)
    next
      case ne: False
      have ws: "data_writes ext (map trimTrailing (raw # pre)) =
                data_writes ext (map trimTrailing pre)"
        using nd ne by simp
      have no: "\<not> (?t = 0x01 \<and> eofSeen)" using cnt by auto
      have c: "eof_count (map trimTrailing pre) + (if eofSeen \<or> ?t = 0x01 then 1 else 0) \<le> 1"
        using cnt by auto
      have "validateHexFile_loop n eofSeen ext w e ((raw # pre) @ rest) =
            validateHexFile_loop (n + 1) (eofSeen \<or> ?t = 0x01) ext w e (pre @ rest)"
        using nd ne no step by auto
      also note Cons.IH [OF oks _ _ c, of ext w "n + 1"]
      finally show ?thesis using nd ne Cons.prems(2,3) unfolding ws
        by (auto simp: eof_count_Cons)
    qed
  qed
qed

lemma count_list_pos: "x \<in> set xs \<Longrightarrow> 0 < count_list xs x"
  using count_list_0_iff [of xs x] by (cases "count_list xs x") simp_all

lemma validateHexFile_first_overlap:
  assumes "\<forall>r \<in> set pre. line_checks_pass (trimTrailing r)"
    "line_checks_pass (trimTrailing raw)"
    "distinct (data_writes 0 (map trimTrailing pre))"
    "\<not> distinct (data_writes 0 (map trimTrailing (pre @ [raw])))"
    "eof_count (map trimTrailing pre) \<le> 1"
  shows "\<exists>a. validateHexFile (Some (pre @ raw # post)) errorOut
                = Inr (False, ''Overlapping data at address 0x'' @ hexUpper a)
           \<and> a \<in> set (data_writes 0 (map trimTrailing pre))
           \<and> 1 < count_list (data_writes 0 (map trimTrailing (pre @ [raw]))) a"
proof -
  let ?P = "map trimTrailing pre"
  let ?l = "trimTrailing raw"
  let ?ext = "ext_after 0 ?P"
  let ?addrs = "map (\<lambda>i. absoluteAddress ?ext (hexWordAt ?l 3) + of_nat i) [0..<unat (hexByteAt ?l 1)]"
  have run: "validateHexFile_loop 0 False 0 {} errorOut (pre @ raw # post) =
      validateHexFile_loop (0 + length pre) (False \<or> 0 < eof_count ?P) ?ext
        ({} \<union> set (data_writes 0 ?P)) errorOut (raw # post)"
    using assms(1,3,5) by (intro validateHexFile_loop_prefix) simp_all
  have ws: "data_writes 0 (map trimTrailing (pre @ [raw])) =
            data_writes 0 ?P @ data_writes ?ext [?l]"
    by (simp add: data_writes_append)
  have da: "distinct ?addrs"
    using unat_u8_lt [of "hexByteAt ?l 1"] by (intro addresses_distinct) simp
  have ty: "hexByteAt ?l 7 = 0x00"
  proof (rule ccontr)
    assume "hexByteAt ?l 7 \<noteq> 0x00"
    then have "data_writes ?ext [?l] = []" by simp
    with assms(3,4) ws show False by simp
  qed
  then have dw: "data_writes ?ext [?l] = ?addrs" by simp
  have "set ?addrs \<inter> set (data_writes 0 ?P) \<noteq> {}"
    using assms(3,4) da unfolding ws dw by auto
  then have "set ?addrs \<inter> ({} \<union> set (data_writes 0 ?P)) \<noteq> {}" by simp
  from overlap_loop_overlapping [OF this]
  obtain a where o: "overlap_loop (absoluteAddress ?ext (hexWordAt ?l 3)) (hexByteAt ?l 1) 0
                       ({} \<union> set (data_writes 0 ?P)) = Inl a"
    and a1: "a \<in> set ?addrs" and a2: "a \<in> set (data_writes 0 ?P)"
    by auto
  have "validateHexFile_loop (0 + length pre) (False \<or> 0 < eof_count ?P) ?ext
        ({} \<union> set (data_writes 0 ?P)) errorOut (raw # post)
        = Inr (False, ''Overlapping data at address 0x'' @ hexUpper a)"
    unfolding validateHexFile_loop_record [OF assms(2)] using ty o by simp
  with run have "validateHexFile (Some (pre @ raw # post)) errorOut
                = Inr (False, ''Overlapping data at address 0x'' @ hexUpper a)"
    by (simp add: validateHexFile_def)
  moreover have "1 < count_list (data_writes 0 (map trimTrailing (pre @ [raw]))) a"
    unfolding ws dw using count_list_pos [OF a1] count_list_pos [OF a2] by simp
  ultimately show ?thesis using a2 by blast
qed

lemma validateHexFile_second_eof:
  assumes "\<forall>r \<in> set pre. line_checks_pass (trimTrailing r)"
    "line_checks_pass (trimTrailing raw)"
    "distinct (data_writes 0 (map trimTrailing pre))"
    "eof_count (map trimTrailing pre) = 1"
    "hexByteAt (trimTrailing raw) 7 = 0x01"
  shows "validateHexFile (Some (pre @ raw # post)) errorOut
           = Inr (False, ''Multiple EOF records detected.'')"
proof -
  let ?P = "map trimTrailing pre"
  have "validateHexFile_loop 0 False 0 {} errorOut (pre @ raw # post) =
      validateHexFile_loop (0 + length pre) (False \<or> 0 < eof_count ?P) (ext_after 0 ?P)
        ({} \<union> set (data_writes 0 ?P)) errorOut (raw # post)"
    using assms(1,3,4) by (intro validateHexFile_loop_prefix) simp_all
  also have "\<dots> = Inr (False, ''Multiple EOF records detected.'')"
    unfolding validateHexFile_loop_record [OF assms(2)] using assms(4,5) by simp
  finally show ?thesis by (simp add: validateHexFile_def)
qed

lemma hexUpper_render: "list_all isUpperHexChar (hexUpper a) \<and> hexval (hexUpper a) = unat a"
  unfolding hexUpper_def using hexUpperNat_upper [of "unat a"] hexval_hexUpperNat [of "unat a"]
  by simp

text \<open>
  Claim C6, as the code has it. When the data records of a file write some absolute
  address twice (whatever the bytes written, and whatever the extended linear addresses
  in force), \<open>validateHexFile\<close> returns \<open>false\<close>. The message is the overlap message, which
  ends with an address written twice rendered in capital hexadecimal digits that read
  back as that address, when every line up to and including the data record that first
  repeats an address passes the line-level checks and at most one EOF record precedes
  that record; the rest of the file is then not read. When all lines of the file pass the
  line-level checks, the message is the overlap message or, a second EOF record coming
  first, the multiple-EOF message; with at most one EOF record in the file it is the
  overlap message.
\<close>

theorem validateHexFile_rejects_overlap:
  assumes "\<not> distinct (data_writes 0 (map trimTrailing lines))"
  shows "(\<exists>msg. validateHexFile (Some lines) errorOut = Inr (False, msg))
       \<and> (lines = pre @ raw # post
            \<and> (\<forall>r \<in> set pre. line_checks_pass (trimTrailing r))
            \<and> line_checks_pass (trimTrailing raw)
            \<and> distinct (data_writes 0 (map trimTrailing pre))
            \<and> \<not> distinct (data_writes 0 (map trimTrailing (pre @ [raw])))
            \<and> eof_count (map trimTrailing pre) \<le> 1 \<longrightarrow>
            (\<exists>a. validateHexFile (Some lines) errorOut
                    = Inr (False, ''Overlapping data at address 0x'' @ hexUpper a)
               \<and> a \<in> set (data_writes 0 (map trimTrailing pre))
               \<and> 1 < count_list (data_writes 0 (map trimTrailing (pre @ [raw]))) a
               \<and> list_all isUpperHexChar (hexUpper a)
               \<and> hexval (hexUpper a) = unat a))
       \<and> ((\<forall>raw \<in> set lines. line_checks_pass (trimTrailing raw)) \<longrightarrow>
            (\<exists>msg. validateHexFile (Some lines) errorOut = Inr (False, msg)
               \<and> (msg = ''Multiple EOF records detected.''
                  \<or> (\<exists>a. msg = ''Overlapping data at address 0x'' @ hexUpper a
                        \<and> 1 < count_list (data_writes 0 (map trimTrailing lines)) a
                        \<and> list_all isUpperHexChar (hexUpper a)
                        \<and> hexval (hexUpper a) = unat a))))
       \<and> ((\<forall>raw \<in> set lines. line_checks_pass (trimTrailing raw))
            \<and> eof_count (map trimTrailing lines) \<le> 1 \<longrightarrow>
            (\<exists>a. validateHexFile (Some lines) errorOut
                    = Inr (False, ''Overlapping data at address 0x'' @ hexUpper a)
               \<and> 1 < count_list (data_writes 0 (map trimTrailing lines)) a
               \<and> list_all isUpperHexChar (hexUpper a)
               \<and> hexval (hexUpper a) = unat a))"
proof -
  have detail: "\<exists>msg. validateHexFile (Some lines) errorOut = Inr (False, msg)
               \<and> (msg = ''Multiple EOF records detected.''
                  \<or> (\<exists>a. msg = ''Overlapping data at address 0x'' @ hexUpper a
                        \<and> 1 < count_list (data_writes 0 (map trimTrailing lines)) a
                        \<and> list_all isUpperHexChar (hexUpper a)
                        \<and> hexval (hexUpper a) = unat a))"
    if ok: "\<forall>raw \<in> set lines. line_checks_pass (trimTrailing raw)"
  proof -
    from validateHexFile_loop_overlap [OF ok, of 0 "{}" 0 False errorOut] assms
    obtain msg where m: "validateHexFile_loop 0 False 0 {} errorOut lines = Inr (False, msg)"
      and c: "msg = ''Multiple EOF records detected.''
              \<or> (\<exists>a. msg = ''Overlapping data at address 0x'' @ hexUpper a
                    \<and> 1 < count_list (data_writes 0 (map trimTrailing lines)) a)"
      by auto
    with hexUpper_render show ?thesis by (auto simp: validateHexFile_def)
  qed
  have single: "\<exists>a. validateHexFile (Some lines) errorOut
                    = Inr (False, ''Overlapping data at address 0x'' @ hexUpper a)
               \<and> 1 < count_list (data_writes 0 (map trimTrailing lines)) a
               \<and> list_all isUpperHexChar (hexUpper a)
               \<and> hexval (hexUpper a) = unat a"
    if ok: "\<forall>raw \<in> set lines. line_checks_pass (trimTrailing raw)"
      and one: "eof_count (map trimTrailing lines) \<le> 1"
  proof -
    from detail [OF ok] obtain msg where
      m: "validateHexFile (Some lines) errorOut = Inr (False, msg)"
      and c: "msg = ''Multiple EOF records detected.''
                  \<or> (\<exists>a. msg = ''Overlapping data at address 0x'' @ hexUpper a
                        \<and> 1 < count_list (data_writes 0 (map trimTrailing lines)) a
                        \<and> list_all isUpperHexChar (hexUpper a)
                        \<and> hexval (hexUpper a) = unat a)"
      by blast
    have "msg \<noteq> ''Multiple EOF records detected.''"
    proof
      assume "msg = ''Multiple EOF records detected.''"
      with m have "validateHexFile_loop 0 False 0 {} errorOut lines
                     = Inr (False, ''Multiple EOF records detected.'')"
        by (simp add: validateHexFile_def)
      from validateHexFile_loop_multiple_eof [OF ok this] one show False by simp
    qed
    with m c show ?thesis by blast
  qed
  have first: "\<exists>a. validateHexFile (Some lines) errorOut
                    = Inr (False, ''Overlapping data at address 0x'' @ hexUpper a)
               \<and> a \<in> set (data_writes 0 (map trimTrailing pre))
               \<and> 1 < count_list (data_writes 0 (map trimTrailing (pre @ [raw]))) a
               \<and> list_all isUpperHexChar (hexUpper a)
               \<and> hexval (hexUpper a) = unat a"
    if h: "lines = pre @ raw # post
            \<and> (\<forall>r \<in> set pre. line_checks_pass (trimTrailing r))
            \<and> line_checks_pass (trimTrailing raw)
            \<and> distinct (data_writes 0 (map trimTrailing pre))
            \<and> \<not> distinct (data_writes 0 (map trimTrailing (pre @ [raw])))
            \<and> eof_count (map trimTrailing pre) \<le> 1"
  proof -
    from h validateHexFile_first_overlap [of pre raw post errorOut]
    obtain a where "validateHexFile (Some lines) errorOut
                    = Inr (False, ''Overlapping data at address 0x'' @ hexUpper a)"
      and "a \<in> set (data_writes 0 (map trimTrailing pre))"
      and "1 < count_list (data_writes 0 (map trimTrailing (pre @ [raw]))) a"
      by blast
    with hexUpper_render [of a] show ?thesis by blast
  qed
  have "\<exists>msg. validateHexFile (Some lines) errorOut = Inr (False, msg)"
  proof (cases "\<forall>raw \<in> set lines. line_checks_pass (trimTrailing raw)")
    case True
    from detail [OF True] show ?thesis by blast
  next
    case False
    from validateHexFile_loop_bad_line [OF False, of 0 False 0 "{}" errorOut]
    show ?thesis by (simp add: validateHexFile_def)
  qed
  with detail single first show ?thesis by blast
qed

theorem validateHexFile_rejects_overlap_witness:
  "line_checks_pass (trimTrailing '':0100AB0055FF'')
   \<and> data_writes 0 (map trimTrailing ['':0100AB0055FF'']) = [0xAB]
   \<and> data_writes 0 (map trimTrailing (['':0100AB0055FF''] @ ['':0100AB0055FF''])) = [0xAB, 0xAB]
   \<and> eof_count (map trimTrailing ['':0100AB0055FF'']) = 0
   \<and> validateHexFile (Some ['':0100AB0055FF'', '':0100AB0055FF'', '':00000001FF'']) []
       = Inr (False, ''Overlapping data at address 0xAB'')"
proof -
  let ?d = "'':0100AB0055FF''"
  let ?f = "[?d, ?d, '':00000001FF'']"
  have q: "line_checks_pass (trimTrailing ?d)" by code_simp
  have w1: "data_writes 0 (map trimTrailing [?d]) = [0xAB]"
    and w2: "data_writes 0 (map trimTrailing ([?d] @ [?d])) = [0xAB, 0xAB]"
    and w3: "data_writes 0 (map trimTrailing ?f) = [0xAB, 0xAB]"
    and c: "eof_count (map trimTrailing [?d]) = 0"
    and u: "hexUpper 0xAB = ''AB''"
    by code_simp+
  have d: "\<not> distinct (data_writes 0 (map trimTrailing ?f))" unfolding w3 by simp
  have h: "?f = [?d] @ ?d # ['':00000001FF'']
            \<and> (\<forall>r \<in> set [?d]. line_checks_pass (trimTrailing r))
            \<and> line_checks_pass (trimTrailing ?d)
            \<and> distinct (data_writes 0 (map trimTrailing [?d]))
            \<and> \<not> distinct (data_writes 0 (map trimTrailing ([?d] @ [?d])))
            \<and> eof_count (map trimTrailing [?d]) \<le> 1"
    unfolding w1 w2 c using q by simp
  from validateHexFile_rejects_overlap [OF d, where errorOut = "[]" and pre = "[?d]" and raw = ?d
                  and post = "['':00000001FF'']"] h
  obtain a where r: "validateHexFile (Some ?f) []
                    = Inr (False, ''Overlapping data at address 0x'' @ hexUpper a)"
    and a: "a \<in> set (data_writes 0 (map trimTrailing [?d]))"
    by blast
  from a have "a = 0xAB" unfolding w1 by simp
  with r u have "validateHexFile (Some ?f) [] = Inr (False, ''Overlapping data at address 0xAB'')"
    by simp
  with q w1 w2 c show ?thesis by simp
qed

text \<open>
  The claim as stated fails: both lines of this file pass the line-level checks and its
  data records write the address \<open>0xAB\<close> twice, yet the second EOF record comes before the
  second data record and the file is rejected with the multiple-EOF message, not with the
  overlap message.
\<close>

theorem validateHexFile_second_eof_before_overlap_counterexample:
  "line_checks_pass (trimTrailing '':0100AB0055FF'')
   \<and> line_checks_pass (trimTrailing '':00000001FF'')
   \<and> data_writes 0 (map trimTrailing
      ['':0100AB0055FF'', '':00000001FF'', '':00000001FF'', '':0100AB0055FF'']) = [0xAB, 0xAB]
   \<and> validateHexFile
      (Some ['':0100AB0055FF'', '':00000001FF'', '':00000001FF'', '':0100AB0055FF'']) []
       = Inr (False, ''Multiple EOF records detected.'')"
  by code_simp

text \<open>
  Claim C7, as the code has it. When all lines pass the line-level checks and the data
  records write no absolute address twice, \<open>validateHexFile\<close> rejects a file without EOF
  record with the missing-EOF message (and decides by the number of EOF records in every
  case). A second EOF record is rejected with the multiple-EOF message where it stands,
  whatever follows it, when the lines up to it pass the line-level checks and the data
  records before it write no address twice. Among the files whose lines all pass the
  line-level checks, the accepted ones are exactly those with one EOF record whose data
  records write no address twice, and a file with one EOF record is never rejected with
  the missing-EOF or the multiple-EOF message.
\<close>

theorem validateHexFile_eof_cardinality:
  "((\<forall>raw \<in> set lines. line_checks_pass (trimTrailing raw))
      \<and> distinct (data_writes 0 (map trimTrailing lines)) \<longrightarrow>
      validateHexFile (Some lines) errorOut =
        (if eof_count (map trimTrailing lines) = 0 then Inr (False, ''Missing EOF record.'')
         else if eof_count (map trimTrailing lines) = 1 then Inr (True, errorOut)
         else Inr (False, ''Multiple EOF records detected.'')))
   \<and> ((\<forall>r \<in> set pre. line_checks_pass (trimTrailing r))
      \<and> line_checks_pass (trimTrailing raw)
      \<and> distinct (data_writes 0 (map trimTrailing pre))
      \<and> eof_count (map trimTrailing pre) = 1
      \<and> hexByteAt (trimTrailing raw) 7 = 0x01 \<longrightarrow>
      validateHexFile (Some (pre @ raw # post)) errorOut
        = Inr (False, ''Multiple EOF records detected.''))
   \<and> ((\<forall>raw \<in> set lines. line_checks_pass (trimTrailing raw)) \<longrightarrow>
      (\<exists>msg. validateHexFile (Some lines) errorOut = Inr (True, msg))
        = (eof_count (map trimTrailing lines) = 1
           \<and> distinct (data_writes 0 (map trimTrailing lines))))
   \<and> ((\<forall>raw \<in> set lines. line_checks_pass (trimTrailing raw))
      \<and> eof_count (map trimTrailing lines) = 1 \<longrightarrow>
      validateHexFile (Some lines) errorOut \<noteq> Inr (False, ''Missing EOF record.'')
      \<and> validateHexFile (Some lines) errorOut \<noteq> Inr (False, ''Multiple EOF records detected.''))"
proof (intro conjI impI)
  assume h: "(\<forall>raw \<in> set lines. line_checks_pass (trimTrailing raw))
      \<and> distinct (data_writes 0 (map trimTrailing lines))"
  then show "validateHexFile (Some lines) errorOut =
        (if eof_count (map trimTrailing lines) = 0 then Inr (False, ''Missing EOF record.'')
         else if eof_count (map trimTrailing lines) = 1 then Inr (True, errorOut)
         else Inr (False, ''Multiple EOF records detected.''))"
    using validateHexFile_loop_no_overlap [of lines 0 "{}" 0 False errorOut]
    by (simp add: validateHexFile_def)
next
  assume "(\<forall>r \<in> set pre. line_checks_pass (trimTrailing r))
      \<and> line_checks_pass (trimTrailing raw)
      \<and> distinct (data_writes 0 (map trimTrailing pre))
      \<and> eof_count (map trimTrailing pre) = 1
      \<and> hexByteAt (trimTrailing raw) 7 = 0x01"
  then show "validateHexFile (Some (pre @ raw # post)) errorOut
        = Inr (False, ''Multiple EOF records detected.'')"
    by (intro validateHexFile_second_eof) simp_all
next
  assume ok: "\<forall>raw \<in> set lines. line_checks_pass (trimTrailing raw)"
  show "(\<exists>msg. validateHexFile (Some lines) errorOut = Inr (True, msg))
        = (eof_count (map trimTrailing lines) = 1
           \<and> distinct (data_writes 0 (map trimTrailing lines)))"
  proof (cases "distinct (data_writes 0 (map trimTrailing lines))")
    case True
    with ok validateHexFile_loop_no_overlap [of lines 0 "{}" 0 False errorOut]
    show ?thesis by (auto simp: validateHexFile_def)
  next
    case False
    from validateHexFile_loop_overlap [OF ok, of 0 "{}" 0 False errorOut] False
    obtain msg where "validateHexFile_loop 0 False 0 {} errorOut lines = Inr (False, msg)"
      by auto
    with False show ?thesis by (simp add: validateHexFile_def)
  qed
next
  assume h: "(\<forall>raw \<in> set lines. line_checks_pass (trimTrailing raw))
      \<and> eof_count (map trimTrailing lines) = 1"
  then have ok: "\<forall>raw \<in> set lines. line_checks_pass (trimTrailing raw)"
    and one: "eof_count (map trimTrailing lines) = 1" by simp_all
  have multi: "validateHexFile (Some lines) errorOut \<noteq> Inr (False, ''Multiple EOF records detected.'')"
  proof
    assume "validateHexFile (Some lines) errorOut = Inr (False, ''Multiple EOF records detected.'')"
    then have "validateHexFile_loop 0 False 0 {} errorOut lines
                 = Inr (False, ''Multiple EOF records detected.'')"
      by (simp add: validateHexFile_def)
    from validateHexFile_loop_multiple_eof [OF ok this] one show False by simp
  qed
  have missing: "validateHexFile (Some lines) errorOut \<noteq> Inr (False, ''Missing EOF record.'')"
  proof (cases "distinct (data_writes 0 (map trimTrailing lines))")
    case True
    with ok one validateHexFile_loop_no_overlap [of lines 0 "{}" 0 False errorOut]
    show ?thesis by (simp add: validateHexFile_def)
  next
    case False
    from validateHexFile_loop_overlap [OF ok, of 0 "{}" 0 False errorOut] False
    obtain msg where m: "validateHexFile_loop 0 False 0 {} errorOut lines = Inr (False, msg)"
      and c: "msg = ''Multiple EOF records detected.''
              \<or> (\<exists>a. msg = ''Overlapping data at address 0x'' @ hexUpper a)"
      by auto
    from c have "msg \<noteq> ''Missing EOF record.''" by auto
    with m show ?thesis by (simp add: validateHexFile_def)
  qed
  from missing show "validateHexFile (Some lines) errorOut \<noteq> Inr (False, ''Missing EOF record.'')" .
  from multi show "validateHexFile (Some lines) errorOut \<noteq> Inr (False, ''Multiple EOF records detected.'')" .
qed

theorem validateHexFile_eof_cardinality_witness:
  "line_checks_pass (trimTrailing '':0100AB0055FF'')
   \<and> line_checks_pass (trimTrailing '':00000001FF'')
   \<and> validateHexFile (Some ['':0100AB0055FF'']) ''none'' = Inr (False, ''Missing EOF record.'')
   \<and> validateHexFile (Some ['':0100AB0055FF'', '':00000001FF'']) ''none'' = Inr (True, ''none'')
   \<and> validateHexFile
        (Some ['':00000001FF'', '':00000001FF'', '':0100AB0055FF'', '':0100AB0055FF'']) ''none''
        = Inr (False, ''Multiple EOF records detected.'')"
proof -
  let ?d = "'':0100AB0055FF''" and ?e = "'':00000001FF''"
  have q: "line_checks_pass (trimTrailing ?d)" "line_checks_pass (trimTrailing ?e)"
    by code_simp+
  have w: "data_writes 0 (map trimTrailing [?d]) = [0xAB]"
    "data_writes 0 (map trimTrailing [?d, ?e]) = [0xAB]"
    "data_writes 0 (map trimTrailing [?e]) = []"
    by code_simp+
  have c: "eof_count (map trimTrailing [?d]) = 0" "eof_count (map trimTrailing [?d, ?e]) = 1"
    "eof_count (map trimTrailing [?e]) = 1" "hexByteAt (trimTrailing ?e) 7 = 0x01"
    by code_simp+
  from validateHexFile_eof_cardinality [where lines = "[?d]" and errorOut = "''none''" and pre = "[]" and raw = ?d
      and post = "[]"] q w c
  have r1: "validateHexFile (Some [?d]) ''none'' = Inr (False, ''Missing EOF record.'')"
    by simp
  from validateHexFile_eof_cardinality [where lines = "[?d, ?e]" and errorOut = "''none''" and pre = "[]" and raw = ?d
      and post = "[]"] q w c
  have r2: "validateHexFile (Some [?d, ?e]) ''none'' = Inr (True, ''none'')"
    by simp
  from validateHexFile_eof_cardinality [where lines = "[]" and errorOut = "''none''" and pre = "[?e]" and raw = ?e
      and post = "[?d, ?d]"] q w c
  have r3: "validateHexFile (Some [?e, ?e, ?d, ?d]) ''none''
              = Inr (False, ''Multiple EOF records detected.'')"
    by simp
  from q r1 r2 r3 show ?thesis by simp
qed

text \<open>
  The claim as stated fails: both lines of this file pass the line-level checks and none
  is an EOF record, yet the file is rejected with the overlap message, at its second line,
  and not with the missing-EOF message.
\<close>

theorem validateHexFile_overlap_not_missing_eof_counterexample:
  "line_checks_pass (trimTrailing '':0100AB0055FF'')
   \<and> eof_count (map trimTrailing ['':0100AB0055FF'', '':0100AB0055FF'']) = 0
   \<and> validateHexFile (Some ['':0100AB0055FF'', '':0100AB0055FF'']) []
       = Inr (False, ''Overlapping data at address 0xAB'')"
  by code_simp

end
